theory Spec2Isabelle
  imports Main
begin

section \<open>Strings, decimal rendering and lexical paths\<close>

text \<open>
  The program under study is \<^verbatim>\<open>cmd/terf/extract.go\<close>.  Go strings are byte sequences and
  are modelled as \<^typ>\<open>string\<close>; Go's \<^verbatim>\<open>int\<close> carries identifiers that are only
  copied and printed, never computed with, and is modelled as \<^typ>\<open>int\<close>.
\<close>

type_synonym path = string

definition digit_char :: "nat \<Rightarrow> char" where
  "digit_char d = ''0123456789'' ! d"

fun digits :: "nat \<Rightarrow> string" where
  "digits n = (if n < 10 then [digit_char n] else digits (n div 10) @ [digit_char (n mod 10)])"

declare digits.simps [simp del]

text \<open>\<^verbatim>\<open>strconv.Itoa\<close>: base 10, a leading minus sign for negative numbers.\<close>

definition Itoa :: "int \<Rightarrow> string" where
  "Itoa i = (if i < 0 then CHR ''-'' # digits (nat (- i)) else digits (nat i))"

text \<open>Reading a decimal numeral back; used only to state what \<open>Itoa\<close> produces.\<close>

definition digit_val :: "char \<Rightarrow> nat" where
  "digit_val c = of_char c - 48"

definition is_digit :: "char \<Rightarrow> bool" where
  "is_digit c = (48 \<le> (of_char c :: nat) \<and> (of_char c :: nat) \<le> 57)"

definition decimal_val :: "string \<Rightarrow> nat" where
  "decimal_val s = foldl (\<lambda>a c. 10 * a + digit_val c) 0 s"

definition Atoi :: "string \<Rightarrow> int option" where
  "Atoi s =
     (case s of
        [] \<Rightarrow> None
      | c # r \<Rightarrow>
          if c = CHR ''-'' then
            (if r \<noteq> [] \<and> list_all is_digit r then Some (- int (decimal_val r)) else None)
          else if list_all is_digit s then Some (int (decimal_val s)) else None)"

text \<open>\<^verbatim>\<open>strings.Join(elems, sep)\<close> for a separator of one byte.\<close>

fun strings_Join :: "char \<Rightarrow> string list \<Rightarrow> string" where
  "strings_Join sep [] = []"
| "strings_Join sep [x] = x"
| "strings_Join sep (x # y # ys) = x @ sep # strings_Join sep (y # ys)"

abbreviation join_sep :: "string list \<Rightarrow> string" where
  "join_sep \<equiv> strings_Join (CHR ''/'')"

text \<open>The elements of a path between separators (empty elements included).\<close>

fun split_sep :: "string \<Rightarrow> string list" where
  "split_sep [] = [[]]"
| "split_sep (c # cs) =
     (if c = CHR ''/'' then [] # split_sep cs
      else (case split_sep cs of [] \<Rightarrow> [[c]] | x # xs \<Rightarrow> (c # x) # xs))"

text \<open>
  \<^verbatim>\<open>filepath.Clean\<close> on a Unix system, element by element: empty and \<^verbatim>\<open>.\<close> elements are
  dropped, \<^verbatim>\<open>..\<close> removes the real element before it, is dropped at the root of a rooted
  path and is kept at the front of a relative one.  The accumulator holds the output
  elements, last one first.
\<close>

fun clean_elems :: "bool \<Rightarrow> string list \<Rightarrow> string list \<Rightarrow> string list" where
  "clean_elems rooted acc [] = rev acc"
| "clean_elems rooted acc (e # es) =
     (if e = [] \<or> e = ''.'' then clean_elems rooted acc es
      else if e = ''..'' then
        (case acc of
           [] \<Rightarrow> if rooted then clean_elems rooted [] es else clean_elems rooted [''..''] es
         | a # as \<Rightarrow>
             if a = ''..'' then clean_elems rooted (''..'' # acc) es
             else clean_elems rooted as es)
      else clean_elems rooted (e # acc) es)"

definition Clean :: "path \<Rightarrow> path" where
  "Clean p =
     (if p = [] then ''.''
      else
        let rooted = (hd p = CHR ''/'');
            es = clean_elems rooted [] (split_sep p)
        in if rooted then CHR ''/'' # join_sep es
           else if es = [] then ''.'' else join_sep es)"

text \<open>A real path element: not empty, without a separator, and neither \<^verbatim>\<open>.\<close> nor
  \<^verbatim>\<open>..\<close>.\<close>

definition plain :: "string \<Rightarrow> bool" where
  "plain e = (e \<noteq> [] \<and> CHR ''/'' \<notin> set e \<and> e \<noteq> ''.'' \<and> e \<noteq> ''..'')"

text \<open>
  \<^verbatim>\<open>filepath.Join\<close>: leading empty elements are ignored, the rest is joined with the
  separator and cleaned; the result is empty when every element is.
\<close>

definition Join :: "string list \<Rightarrow> path" where
  "Join elems =
     (case dropWhile (\<lambda>e. e = []) elems of
        [] \<Rightarrow> []
      | es \<Rightarrow> Clean (join_sep es))"

text \<open>The directory prefixes of a path, outermost first, ending with the path itself.\<close>

fun prefixes_from :: "string \<Rightarrow> string list \<Rightarrow> path list" where
  "prefixes_from pre [] = []"
| "prefixes_from pre (e # es) =
     (if e = [] then prefixes_from pre es
      else (pre @ e) # prefixes_from (pre @ e @ ''/'') es)"

definition ancestors :: "path \<Rightarrow> path list" where
  "ancestors p =
     (if p \<noteq> [] \<and> hd p = CHR ''/'' then prefixes_from ''/'' (split_sep p)
      else prefixes_from [] (split_sep p))"

definition parent :: "path \<Rightarrow> path option" where
  "parent p = (case rev (ancestors p) of _ # q # _ \<Rightarrow> Some q | _ \<Rightarrow> None)"

section \<open>Errors, the file system and the record library\<close>

datatype errno = ENOENT | ENOTDIR | EISDIR

text \<open>
  Go error values: \<^verbatim>\<open>io.EOF\<close>, \<^verbatim>\<open>errors.New(msg)\<close>, \<^verbatim>\<open>*os.PathError\<close> with its operation,
  path and cause, the errors of the record and compression libraries, the error of a
  failing device, and \<^verbatim>\<open>context.Canceled\<close>.
\<close>

datatype error =
    EOF
  | ErrorString string
  | PathError string path errno
  | LibError string
  | DeviceError string
  | Canceled

datatype node = File string | Dir

datatype sysop = OpStat | OpOpen | OpReadDir | OpMkdir | OpCreate | OpWrite | OpGetwd

text \<open>A directory entry as \<^verbatim>\<open>ioutil.ReadDir\<close> reports it: \<^verbatim>\<open>Name()\<close> and \<^verbatim>\<open>IsDir()\<close>.\<close>

record FileInfo =
  Name :: string
  IsDir :: bool

text \<open>
  The environment of a run.  \<open>nodes\<close> maps a path name to what is stored under it; the
  root and the working directory exist without an entry.  \<open>fault\<close> makes a system call
  on a path fail for a reason outside the program (permissions, a full disk);
  \<open>listing\<close> is what the system reports as the entries of a directory; \<open>cwd\<close> is the
  working directory and \<open>NumCPU\<close> the number of processors.
\<close>

record world =
  nodes :: "path \<rightharpoonup> node"
  fault :: "sysop \<Rightarrow> path \<Rightarrow> error option"
  listing :: "path \<Rightarrow> FileInfo list"
  cwd :: path
  NumCPU :: nat

definition file_at :: "world \<Rightarrow> path \<Rightarrow> string option" where
  "file_at w p = (case nodes w p of Some (File c) \<Rightarrow> Some c | _ \<Rightarrow> None)"

definition is_dir :: "world \<Rightarrow> path \<Rightarrow> bool" where
  "is_dir w p = (nodes w p = Some Dir)"

text \<open>\<^verbatim>\<open>os.Mkdir\<close> of one directory whose parent exists, as \<^verbatim>\<open>os.MkdirAll\<close> uses it: an
  existing directory is left alone, a regular file in the way is an error.\<close>

definition mkdir_step :: "path \<Rightarrow> world \<Rightarrow> error option \<times> world" where
  "mkdir_step p w =
     (case nodes w p of
        Some Dir \<Rightarrow> (None, w)
      | Some (File c) \<Rightarrow> (Some (PathError ''mkdir'' p ENOTDIR), w)
      | None \<Rightarrow>
          (case fault w OpMkdir p of
             Some e \<Rightarrow> (Some e, w)
           | None \<Rightarrow> (None, w\<lparr>nodes := (nodes w)(p \<mapsto> Dir)\<rparr>)))"

fun mkdir_chain :: "path list \<Rightarrow> world \<Rightarrow> error option \<times> world" where
  "mkdir_chain [] w = (None, w)"
| "mkdir_chain (p # ps) w =
     (case mkdir_step p w of
        (Some e, w') \<Rightarrow> (Some e, w')
      | (None, w') \<Rightarrow> mkdir_chain ps w')"

text \<open>\<^verbatim>\<open>os.MkdirAll\<close>: nothing to do when the path is a directory already, an error when
  it is a regular file; otherwise the directory and every missing parent are made,
  outermost first, and nothing is undone when a later step fails.\<close>

definition MkdirAll :: "path \<Rightarrow> world \<Rightarrow> error option \<times> world" where
  "MkdirAll p w =
     (case nodes w p of
        Some Dir \<Rightarrow> (None, w)
      | Some (File c) \<Rightarrow> (Some (PathError ''mkdir'' p ENOTDIR), w)
      | None \<Rightarrow>
          if p = [] then (Some (PathError ''mkdir'' p ENOENT), w)
          else mkdir_chain (ancestors p) w)"

text \<open>\<^verbatim>\<open>os.Create\<close>: the file is created or truncated; its parent must be a directory.\<close>

definition Create :: "path \<Rightarrow> world \<Rightarrow> error option \<times> world" where
  "Create p w =
     (case fault w OpCreate p of
        Some e \<Rightarrow> (Some e, w)
      | None \<Rightarrow>
          (case nodes w p of
             Some Dir \<Rightarrow> (Some (PathError ''open'' p EISDIR), w)
           | _ \<Rightarrow>
               (case parent p of
                  None \<Rightarrow> (None, w\<lparr>nodes := (nodes w)(p \<mapsto> File [])\<rparr>)
                | Some d \<Rightarrow>
                    (case nodes w d of
                       Some Dir \<Rightarrow> (None, w\<lparr>nodes := (nodes w)(p \<mapsto> File [])\<rparr>)
                     | Some (File c) \<Rightarrow> (Some (PathError ''open'' p ENOTDIR), w)
                     | None \<Rightarrow> (Some (PathError ''open'' p ENOENT), w)))))"

text \<open>A write to an open file appends at its end.\<close>

definition write_file :: "path \<Rightarrow> string \<Rightarrow> world \<Rightarrow> error option \<times> world" where
  "write_file p bs w =
     (case fault w OpWrite p of
        Some e \<Rightarrow> (Some e, w)
      | None \<Rightarrow>
          (case nodes w p of
             Some (File c) \<Rightarrow> (None, w\<lparr>nodes := (nodes w)(p \<mapsto> File (c @ bs))\<rparr>)
           | _ \<Rightarrow> (Some (PathError ''write'' p ENOENT), w)))"

text \<open>\<^verbatim>\<open>os.Open\<close> for reading: what is stored under the path, a directory included (reading
  from it is what fails then).\<close>

definition Open :: "path \<Rightarrow> world \<Rightarrow> error + node" where
  "Open p w =
     (case fault w OpOpen p of
        Some e \<Rightarrow> Inl e
      | None \<Rightarrow>
          (case nodes w p of
             None \<Rightarrow> Inl (PathError ''open'' p ENOENT)
           | Some n \<Rightarrow> Inr n))"

text \<open>\<^verbatim>\<open>os.Stat(p)\<close> followed by \<^verbatim>\<open>IsDir()\<close>.\<close>

definition Stat :: "path \<Rightarrow> world \<Rightarrow> error + bool" where
  "Stat p w =
     (case fault w OpStat p of
        Some e \<Rightarrow> Inl e
      | None \<Rightarrow>
          (case nodes w p of
             None \<Rightarrow> Inl (PathError ''stat'' p ENOENT)
           | Some n \<Rightarrow> Inr (n = Dir)))"

definition ReadDir :: "path \<Rightarrow> world \<Rightarrow> error + FileInfo list" where
  "ReadDir p w =
     (case fault w OpReadDir p of
        Some e \<Rightarrow> Inl e
      | None \<Rightarrow> Inr (listing w p))"

text \<open>\<^verbatim>\<open>filepath.Abs\<close>: a rooted path is cleaned, another one is joined to the working
  directory.\<close>

definition Abs :: "path \<Rightarrow> world \<Rightarrow> error + path" where
  "Abs p w =
     (if p \<noteq> [] \<and> hd p = CHR ''/'' then Inr (Clean p)
      else
        (case fault w OpGetwd [] of
           Some e \<Rightarrow> Inl e
         | None \<Rightarrow> Inr (Join [cwd w, p])))"

subsection \<open>The record library\<close>

text \<open>The image entity of the library, with the fields the program reads.\<close>

record Image =
  ID :: int
  LabelID :: int
  LabelText :: string
  Organization :: string
  Raw :: string

type_synonym example = string

datatype next_result = NextRecord example | NextError error

text \<open>
  Modelled from the spec: the reader and the image decoder of package \<^verbatim>\<open>terf\<close> (and the
  \<^verbatim>\<open>zlib\<close> layer under it), which are not part of \<^verbatim>\<open>extract.go\<close>.  The spec gives
  \<^verbatim>\<open>openReader(byteStream) -> Reader\<close>, \<^verbatim>\<open>Reader.next() -> (Record | EndOfStream | DecodeError)\<close>
  and \<^verbatim>\<open>decodeImage(Record) -> (ImageEntity | DecodeError)\<close>, the sequence of records being
  lazy and finite.  \<open>zlib_NewReader\<close> is the check of the compression header;
  \<open>records\<close> is the finite sequence of results that successive calls of \<^verbatim>\<open>Next\<close> give
  on an opened node, read through the decompression layer or not, the end of the list
  being the end of the stream.
\<close>

record decoder =
  zlib_NewReader :: "node \<Rightarrow> error option"
  records :: "bool \<Rightarrow> node \<Rightarrow> next_result list"
  NewImageFromExample :: "example \<Rightarrow> error + Image"

text \<open>
  Modelled from the spec: \<^verbatim>\<open>ImageEntity.save(filePath) -> (success | IOError)\<close> persists the
  image payload under the given name: the file is created or truncated, then the
  payload is written.
\<close>

definition Save :: "Image \<Rightarrow> path \<Rightarrow> world \<Rightarrow> error option \<times> world" where
  "Save img file w =
     (case Create file w of
        (Some e, w') \<Rightarrow> (Some e, w')
      | (None, w') \<Rightarrow> write_file file (Raw img) w')"

section \<open>extractFile\<close>

record ImageRecord =
  Path :: string
  ID :: int
  LabelID :: int
  LabelText :: string
  Organization :: string

text \<open>The destination of an image: \<^verbatim>\<open>filepath.Join(outdir, img.LabelText)\<close> and
  \<^verbatim>\<open>filepath.Join(outdir, img.LabelText, fmt.Sprintf("%d.jpg", img.ID))\<close>.\<close>

definition label_dir :: "path \<Rightarrow> Image \<Rightarrow> path" where
  "label_dir outdir img = Join [outdir, Image.LabelText img]"

definition fname :: "path \<Rightarrow> Image \<Rightarrow> path" where
  "fname outdir img = Join [outdir, Image.LabelText img, Itoa (Image.ID img) @ ''.jpg'']"

definition ir :: "path \<Rightarrow> Image \<Rightarrow> ImageRecord" where
  "ir outdir img =
     \<lparr>Path = fname outdir img,
      ID = Image.ID img,
      LabelID = Image.LabelID img,
      LabelText = Image.LabelText img,
      Organization = Image.Organization img\<rparr>"

text \<open>
  The loop of \<open>extractFile\<close> (lines 234 to 267).  The reader is the list of results its
  \<^verbatim>\<open>Next\<close> will give: at the end of the list, or at \<^verbatim>\<open>io.EOF\<close>, the loop breaks; any
  other error is returned with no record list.  For a record: decode the image, make
  the label directory, save the payload, and only then append the index record.
\<close>

fun extract_loop ::
  "decoder \<Rightarrow> path \<Rightarrow> next_result list \<Rightarrow> ImageRecord list \<Rightarrow> world
     \<Rightarrow> (error + ImageRecord list) \<times> world" where
  "extract_loop D outdir [] images w = (Inr images, w)"
| "extract_loop D outdir (NextError e # r) images w =
     (if e = EOF then (Inr images, w) else (Inl e, w))"
| "extract_loop D outdir (NextRecord ex # r) images w =
     (case NewImageFromExample D ex of
        Inl e \<Rightarrow> (Inl e, w)
      | Inr img \<Rightarrow>
          (case MkdirAll (label_dir outdir img) w of
             (Some e, w1) \<Rightarrow> (Inl e, w1)
           | (None, w1) \<Rightarrow>
               (case Save img (fname outdir img) w1 of
                  (Some e, w2) \<Rightarrow> (Inl e, w2)
                | (None, w2) \<Rightarrow> extract_loop D outdir r (images @ [ir outdir img]) w2)))"

text \<open>The records a reader delivers before its stream ends or fails.\<close>

fun stream_records :: "next_result list \<Rightarrow> example list" where
  "stream_records [] = []"
| "stream_records (NextError e # r) = []"
| "stream_records (NextRecord ex # r) = ex # stream_records r"

text \<open>The file system when the loop has gone through the first \<open>k\<close> results of the
  reader.\<close>

definition world_after :: "decoder \<Rightarrow> path \<Rightarrow> next_result list \<Rightarrow> nat \<Rightarrow> world \<Rightarrow> world" where
  "world_after D outdir rs k w = snd (extract_loop D outdir (take k rs) [] w)"

definition extractFile ::
  "decoder \<Rightarrow> path \<Rightarrow> path \<Rightarrow> bool \<Rightarrow> world \<Rightarrow> (error + ImageRecord list) \<times> world" where
  "extractFile D inputPath outdir compress w =
     (case Open inputPath w of
        Inl e \<Rightarrow> (Inl e, w)
      | Inr inp \<Rightarrow>
          (if compress then
             (case zlib_NewReader D inp of
                Some e \<Rightarrow> (Inl e, w)
              | None \<Rightarrow> extract_loop D outdir (records D True inp) [] w)
           else extract_loop D outdir (records D False inp) [] w))"

section \<open>The index file\<close>

definition InfoFile :: string where
  "InfoFile = ''info.csv''"

text \<open>
  \<^verbatim>\<open>csv.NewWriter(out)\<close> is a \<^verbatim>\<open>bufio.Writer\<close> of the default size over the file: bytes
  are kept in the buffer and reach the file when the buffer overflows or is flushed;
  the first error of the file is kept and every later write does nothing.
\<close>

definition bufsize :: nat where
  "bufsize = 4096"

record Writer =
  w_out :: path
  w_buf :: string
  w_err :: "error option"

definition NewWriter :: "path \<Rightarrow> Writer" where
  "NewWriter p = \<lparr>w_out = p, w_buf = [], w_err = None\<rparr>"

definition Flush :: "Writer \<Rightarrow> world \<Rightarrow> Writer \<times> world" where
  "Flush b w =
     (if w_err b \<noteq> None then (b, w)
      else if w_buf b = [] then (b, w)
      else
        (case write_file (w_out b) (w_buf b) w of
           (Some e, w') \<Rightarrow> (b\<lparr>w_err := Some e\<rparr>, w')
         | (None, w') \<Rightarrow> (b\<lparr>w_buf := []\<rparr>, w')))"

text \<open>\<^verbatim>\<open>bufio.Writer.WriteString\<close>: while the string does not fit, fill the buffer and
  flush it; then copy what is left.\<close>

function WriteString :: "string \<Rightarrow> Writer \<Rightarrow> world \<Rightarrow> Writer \<times> world" where
  "WriteString s b w =
     (if length s > bufsize - length (w_buf b) \<and> w_err b = None then
        (let n = bufsize - length (w_buf b);
             bw = Flush (b\<lparr>w_buf := w_buf b @ take n s\<rparr>) w
         in WriteString (drop n s) (fst bw) (snd bw))
      else if w_err b \<noteq> None then (b, w)
      else (b\<lparr>w_buf := w_buf b @ s\<rparr>, w))"
  by pat_completeness auto
termination
proof (relation "measure (\<lambda>(s, b, w). 2 * length s +
         (if w_err b = None \<and> bufsize \<le> length (w_buf b) then 1 else 0))", goal_cases)
  case 1
  then show ?case by simp
next
  case (2 s b w n bw)
  show ?case
  proof (cases "n = 0")
    case True
    have full: "bufsize \<le> length (w_buf b)" using 2 True by simp
    then have ne: "w_buf b \<noteq> []" by (auto simp: bufsize_def)
    have "w_err (fst bw) \<noteq> None \<or> w_buf (fst bw) = []"
      using 2 True ne by (auto simp: Flush_def split: prod.splits option.splits)
    then have "\<not> (w_err (fst bw) = None \<and> bufsize \<le> length (w_buf (fst bw)))"
      by (auto simp: bufsize_def)
    then show ?thesis using 2 True full by (auto simp: case_prod_beta)
  next
    case False
    then show ?thesis using 2 by (auto simp: case_prod_beta split: if_splits)
  qed
qed

declare WriteString.simps [simp del]

text \<open>
  \<^verbatim>\<open>csv.Writer.Write\<close> with the comma as separator and \<^verbatim>\<open>UseCRLF\<close> off.  A field is
  quoted when it is \<^verbatim>\<open>\.\<close>, holds a separator, a quote or a line break, or starts with
  white space (\<^verbatim>\<open>unicode.IsSpace\<close> of its first rune, given here by the UTF-8 encodings
  of the white space characters); inside quotes a quote is doubled.
\<close>

definition space_prefixes :: "string list" where
  "space_prefixes =
     [[CHR 0x09], [CHR 0x0A], [CHR 0x0B], [CHR 0x0C], [CHR 0x0D], [CHR 0x20],
      [CHR 0xC2, CHR 0x85], [CHR 0xC2, CHR 0xA0], [CHR 0xE1, CHR 0x9A, CHR 0x80],
      [CHR 0xE2, CHR 0x80, CHR 0x80], [CHR 0xE2, CHR 0x80, CHR 0x81],
      [CHR 0xE2, CHR 0x80, CHR 0x82], [CHR 0xE2, CHR 0x80, CHR 0x83],
      [CHR 0xE2, CHR 0x80, CHR 0x84], [CHR 0xE2, CHR 0x80, CHR 0x85],
      [CHR 0xE2, CHR 0x80, CHR 0x86], [CHR 0xE2, CHR 0x80, CHR 0x87],
      [CHR 0xE2, CHR 0x80, CHR 0x88], [CHR 0xE2, CHR 0x80, CHR 0x89],
      [CHR 0xE2, CHR 0x80, CHR 0x8A], [CHR 0xE2, CHR 0x80, CHR 0xA8],
      [CHR 0xE2, CHR 0x80, CHR 0xA9], [CHR 0xE2, CHR 0x80, CHR 0xAF],
      [CHR 0xE2, CHR 0x81, CHR 0x9F], [CHR 0xE3, CHR 0x80, CHR 0x80]]"

definition fieldNeedsQuotes :: "string \<Rightarrow> bool" where
  "fieldNeedsQuotes field =
     (if field = [] then False
      else if field = [CHR 0x5C, CHR ''.''] then True
      else if list_ex (\<lambda>c. c = CHR 0x0A \<or> c = CHR 0x0D \<or> c = CHR 0x22 \<or> c = CHR '','') field
        then True
      else list_ex (\<lambda>p. take (length p) field = p) space_prefixes)"

definition csv_field :: "string \<Rightarrow> string" where
  "csv_field field =
     (if fieldNeedsQuotes field then
        CHR 0x22 # concat (map (\<lambda>c. if c = CHR 0x22 then [CHR 0x22, CHR 0x22] else [c]) field)
          @ [CHR 0x22]
      else field)"

definition csv_line :: "string list \<Rightarrow> string" where
  "csv_line record = strings_Join (CHR '','') (map csv_field record) @ [CHR 0x0A]"

definition csv_Write :: "string list \<Rightarrow> Writer \<Rightarrow> world \<Rightarrow> error option \<times> Writer \<times> world" where
  "csv_Write record b w =
     (let bw = WriteString (csv_line record) b w in (w_err (fst bw), fst bw, snd bw))"

definition header :: "string list" where
  "header = [''image_path'', ''id'', ''label_id'', ''label_text'', ''organization'']"

definition writeHeader :: "Writer \<Rightarrow> world \<Rightarrow> error option \<times> Writer \<times> world" where
  "writeHeader b w = csv_Write header b w"

definition record_fields :: "ImageRecord \<Rightarrow> string list" where
  "record_fields i = [Path i, Itoa (ID i), Itoa (LabelID i), LabelText i, Organization i]"

fun writeLabels :: "ImageRecord list \<Rightarrow> Writer \<Rightarrow> world \<Rightarrow> error option \<times> Writer \<times> world" where
  "writeLabels [] b w = (None, b, w)"
| "writeLabels (i # images) b w =
     (case csv_Write (record_fields i) b w of
        (Some e, b', w') \<Rightarrow> (Some e, b', w')
      | (None, b', w') \<Rightarrow> writeLabels images b' w')"

section \<open>Extract\<close>

subsection \<open>The pipeline of the directory mode\<close>

text \<open>
  In directory mode \<open>Extract\<close> starts, in one \<^verbatim>\<open>errgroup\<close> with a shared context, an
  enumerator and \<open>threads\<close> workers, and beside them a goroutine that waits for the
  group and closes the channel \<open>images\<close>; \<open>Extract\<close> itself goes on to create and write
  the index.  The goroutines are modelled by their control points and run interleaved,
  one event at a time.  Both channels are unbuffered, so a send and its receive are one
  event.
\<close>

datatype enum_pc =
    E_ReadDir
  | E_Loop "FileInfo list"
  | E_Ret "error option"
  | E_Done

datatype worker_pc =
    W_Recv
  | W_Run path
  | W_Send "ImageRecord list"
  | W_Ret "error option"
  | W_Done

datatype closer_pc = C_Wait | C_Close | C_Done

datatype main_pc =
    M_Create
  | M_Header
  | M_Range
  | M_Wait
  | M_Flush
  | M_Ret "error option"

record pipeline =
  cfg_inputPath :: path
  cfg_outdir :: path
  cfg_compress :: bool
  disk :: world
  enumerator :: enum_pc
  workers :: "worker_pc list"
  paths_closed :: bool
  images_closed :: bool
  g_err :: "error option"
  ctx_done :: bool
  closer :: closer_pc
  mainpc :: main_pc
  csvw :: Writer

text \<open>What \<^verbatim>\<open>errgroup.Group.Go\<close> does when the function of a goroutine has returned: the
  first error that is not nil is kept and cancels the context.\<close>

definition group_done :: "error option \<Rightarrow> pipeline \<Rightarrow> pipeline" where
  "group_done r s =
     (case r of
        None \<Rightarrow> s
      | Some e \<Rightarrow> if g_err s = None then s\<lparr>g_err := Some e, ctx_done := True\<rparr> else s)"

text \<open>\<^verbatim>\<open>g.Wait()\<close> returns when every goroutine of the group is done.\<close>

definition all_done :: "pipeline \<Rightarrow> bool" where
  "all_done s = (enumerator s = E_Done \<and> list_all (\<lambda>p. p = W_Done) (workers s))"

datatype event =
    EnumStep
  | Handoff nat
  | EnumCancel
  | WorkerStep nat
  | Deliver nat
  | WorkerCancel nat
  | CloserStep
  | MainStep

text \<open>
  The enumerator (lines 101 to 121): \<^verbatim>\<open>ioutil.ReadDir\<close>, then for each entry that is
  not a directory a send of \<^verbatim>\<open>filepath.Join(inputPath, f.Name())\<close> on \<open>paths\<close> or, when the
  context is done, the return of its error; \<open>paths\<close> is closed when the function
  returns.
\<close>

definition enum_step :: "pipeline \<Rightarrow> pipeline option" where
  "enum_step s =
     (case enumerator s of
        E_ReadDir \<Rightarrow>
          (case ReadDir (cfg_inputPath s) (disk s) of
             Inl e \<Rightarrow> Some (s\<lparr>enumerator := E_Ret (Some e), paths_closed := True\<rparr>)
           | Inr files \<Rightarrow> Some (s\<lparr>enumerator := E_Loop files\<rparr>))
      | E_Loop [] \<Rightarrow> Some (s\<lparr>enumerator := E_Ret None, paths_closed := True\<rparr>)
      | E_Loop (f # fs) \<Rightarrow> if IsDir f then Some (s\<lparr>enumerator := E_Loop fs\<rparr>) else None
      | E_Ret r \<Rightarrow> Some (group_done r (s\<lparr>enumerator := E_Done\<rparr>))
      | E_Done \<Rightarrow> None)"

definition handoff :: "nat \<Rightarrow> pipeline \<Rightarrow> pipeline option" where
  "handoff i s =
     (case enumerator s of
        E_Loop (f # fs) \<Rightarrow>
          if \<not> IsDir f \<and> i < length (workers s) \<and> workers s ! i = W_Recv then
            Some (s\<lparr>enumerator := E_Loop fs,
                    workers := (workers s)[i := W_Run (Join [cfg_inputPath s, Name f])]\<rparr>)
          else None
      | _ \<Rightarrow> None)"

definition enum_cancel :: "pipeline \<Rightarrow> pipeline option" where
  "enum_cancel s =
     (case enumerator s of
        E_Loop (f # fs) \<Rightarrow>
          if \<not> IsDir f \<and> ctx_done s then
            Some (s\<lparr>enumerator := E_Ret (Some Canceled), paths_closed := True\<rparr>)
          else None
      | _ \<Rightarrow> None)"

text \<open>
  A worker (lines 126 to 141): it receives the next path, or returns nil when \<open>paths\<close>
  is closed; it runs \<open>extractFile\<close> and returns its error; it sends the record list on
  \<open>images\<close> or, when the context is done, returns the error of the context.
\<close>

definition worker_step :: "decoder \<Rightarrow> nat \<Rightarrow> pipeline \<Rightarrow> pipeline option" where
  "worker_step D i s =
     (if i < length (workers s) then
        (case workers s ! i of
           W_Recv \<Rightarrow>
             if paths_closed s then Some (s\<lparr>workers := (workers s)[i := W_Ret None]\<rparr>)
             else None
         | W_Run p \<Rightarrow>
             (case extractFile D p (cfg_outdir s) (cfg_compress s) (disk s) of
                (Inl e, w') \<Rightarrow>
                  Some (s\<lparr>disk := w', workers := (workers s)[i := W_Ret (Some e)]\<rparr>)
              | (Inr im, w') \<Rightarrow>
                  Some (s\<lparr>disk := w', workers := (workers s)[i := W_Send im]\<rparr>))
         | W_Send im \<Rightarrow> None
         | W_Ret r \<Rightarrow> Some (group_done r (s\<lparr>workers := (workers s)[i := W_Done]\<rparr>))
         | W_Done \<Rightarrow> None)
      else None)"

text \<open>The receive of line 161 together with the \<open>writeLabels\<close> of line 162, whose result
  is dropped.\<close>

definition deliver :: "nat \<Rightarrow> pipeline \<Rightarrow> pipeline option" where
  "deliver i s =
     (if i < length (workers s) \<and> mainpc s = M_Range then
        (case workers s ! i of
           W_Send im \<Rightarrow>
             (case writeLabels im (csvw s) (disk s) of
                (r, b, w') \<Rightarrow>
                  Some (s\<lparr>disk := w', csvw := b, workers := (workers s)[i := W_Recv]\<rparr>))
         | _ \<Rightarrow> None)
      else None)"

definition worker_cancel :: "nat \<Rightarrow> pipeline \<Rightarrow> pipeline option" where
  "worker_cancel i s =
     (if i < length (workers s) \<and> ctx_done s then
        (case workers s ! i of
           W_Send im \<Rightarrow> Some (s\<lparr>workers := (workers s)[i := W_Ret (Some Canceled)]\<rparr>)
         | _ \<Rightarrow> None)
      else None)"

text \<open>Lines 144 to 147: \<^verbatim>\<open>g.Wait()\<close>, which also cancels the context, then
  \<^verbatim>\<open>close(images)\<close>.\<close>

definition closer_step :: "pipeline \<Rightarrow> pipeline option" where
  "closer_step s =
     (case closer s of
        C_Wait \<Rightarrow> if all_done s then Some (s\<lparr>closer := C_Close, ctx_done := True\<rparr>) else None
      | C_Close \<Rightarrow> Some (s\<lparr>closer := C_Done, images_closed := True\<rparr>)
      | C_Done \<Rightarrow> None)"

text \<open>
  \<open>Extract\<close> itself from line 149 on: create the index file, write the header, range
  over \<open>images\<close> (the receive is the event \<open>Deliver\<close>) until it is closed, wait for the
  group and return its error, flush the writer and return its error.
\<close>

definition main_step :: "pipeline \<Rightarrow> pipeline option" where
  "main_step s =
     (case mainpc s of
        M_Create \<Rightarrow>
          (case Create (Join [cfg_outdir s, InfoFile]) (disk s) of
             (Some e, w') \<Rightarrow> Some (s\<lparr>disk := w', mainpc := M_Ret (Some e)\<rparr>)
           | (None, w') \<Rightarrow>
               Some (s\<lparr>disk := w', csvw := NewWriter (Join [cfg_outdir s, InfoFile]),
                       mainpc := M_Header\<rparr>))
      | M_Header \<Rightarrow>
          (case writeHeader (csvw s) (disk s) of
             (Some e, b, w') \<Rightarrow> Some (s\<lparr>disk := w', csvw := b, mainpc := M_Ret (Some e)\<rparr>)
           | (None, b, w') \<Rightarrow> Some (s\<lparr>disk := w', csvw := b, mainpc := M_Range\<rparr>))
      | M_Range \<Rightarrow> if images_closed s then Some (s\<lparr>mainpc := M_Wait\<rparr>) else None
      | M_Wait \<Rightarrow>
          if all_done s then
            (case g_err s of
               Some e \<Rightarrow> Some (s\<lparr>ctx_done := True, mainpc := M_Ret (Some e)\<rparr>)
             | None \<Rightarrow> Some (s\<lparr>ctx_done := True, mainpc := M_Flush\<rparr>))
          else None
      | M_Flush \<Rightarrow>
          (case Flush (csvw s) (disk s) of
             (b, w') \<Rightarrow> Some (s\<lparr>disk := w', csvw := b, mainpc := M_Ret (w_err b)\<rparr>))
      | M_Ret r \<Rightarrow> None)"

fun step :: "decoder \<Rightarrow> event \<Rightarrow> pipeline \<Rightarrow> pipeline option" where
  "step D EnumStep s = enum_step s"
| "step D (Handoff i) s = handoff i s"
| "step D EnumCancel s = enum_cancel s"
| "step D (WorkerStep i) s = worker_step D i s"
| "step D (Deliver i) s = deliver i s"
| "step D (WorkerCancel i) s = worker_cancel i s"
| "step D CloserStep s = closer_step s"
| "step D MainStep s = main_step s"

text \<open>A run: the events of a schedule, one after the other; \<open>None\<close> when the schedule
  asks for an event that cannot happen.\<close>

fun run :: "decoder \<Rightarrow> event list \<Rightarrow> pipeline \<Rightarrow> pipeline option" where
  "run D [] s = Some s"
| "run D (ev # evs) s = (case step D ev s of None \<Rightarrow> None | Some s' \<Rightarrow> run D evs s')"

text \<open>The state after lines 98 to 147.\<close>

definition spawn :: "path \<Rightarrow> path \<Rightarrow> int \<Rightarrow> bool \<Rightarrow> world \<Rightarrow> pipeline" where
  "spawn inputPath outdir threads compress w =
     \<lparr>cfg_inputPath = inputPath, cfg_outdir = outdir, cfg_compress = compress,
      disk = w, enumerator = E_ReadDir, workers = replicate (nat threads) W_Recv,
      paths_closed = False, images_closed = False, g_err = None, ctx_done = False,
      closer = C_Wait, mainpc = M_Create, csvw = NewWriter (Join [outdir, InfoFile])\<rparr>"

subsection \<open>Extract\<close>

text \<open>\<open>Extract\<close> returns in the single-file mode (and on an early error); in
  directory mode it becomes the pipeline.\<close>

datatype outcome = Returned "error option" world | Spawned pipeline

definition Extract :: "decoder \<Rightarrow> path \<Rightarrow> path \<Rightarrow> int \<Rightarrow> bool \<Rightarrow> world \<Rightarrow> outcome" where
  "Extract D inputPath outPath threads compress w =
     (if length outPath = 0 then
        Returned (Some (ErrorString ''Please provide an output directory'')) w
      else
        (case Abs outPath w of
           Inl e \<Rightarrow> Returned (Some e) w
         | Inr outdir \<Rightarrow>
             (case MkdirAll outdir w of
                (Some e, w1) \<Rightarrow> Returned (Some e) w1
              | (None, w1) \<Rightarrow>
                  (case Stat inputPath w1 of
                     Inl e \<Rightarrow> Returned (Some e) w1
                   | Inr isdir \<Rightarrow>
                       if \<not> isdir then
                         (case extractFile D inputPath outdir compress w1 of
                            (Inl e, w2) \<Rightarrow> Returned (Some e) w2
                          | (Inr images, w2) \<Rightarrow>
                              if length images = 0 then
                                Returned (Some (ErrorString ''No images found'')) w2
                              else
                                (case Create (Join [outdir, InfoFile]) w2 of
                                   (Some e, w3) \<Rightarrow> Returned (Some e) w3
                                 | (None, w3) \<Rightarrow>
                                     (case writeHeader (NewWriter (Join [outdir, InfoFile])) w3 of
                                        (Some e, b1, w4) \<Rightarrow> Returned (Some e) w4
                                      | (None, b1, w4) \<Rightarrow>
                                          (case writeLabels images b1 w4 of
                                             (r, b2, w5) \<Rightarrow>
                                               (case Flush b2 w5 of
                                                  (b3, w6) \<Rightarrow> Returned (w_err b3) w6)))))
                       else
                         Spawned (spawn inputPath outdir
                                    (if threads = 0 then int (NumCPU w1) else threads)
                                    compress w1)))))"

section \<open>A small environment for concrete runs\<close>

text \<open>
  A reader that delivers one record for each byte of a shard (and fails on \<^verbatim>\<open>!\<close>), four
  images, and a file system with one shard under \<^verbatim>\<open>/in\<close>.
\<close>

definition demo_image :: "example \<Rightarrow> error + Image" where
  "demo_image ex =
     (if ex = ''a'' then
        Inr \<lparr>Image.ID = 1, LabelID = 0, LabelText = ''cat'', Organization = ''acme'', Raw = ''JPEG-A''\<rparr>
      else if ex = ''b'' then
        Inr \<lparr>Image.ID = 2, LabelID = 1, LabelText = ''dog'', Organization = ''acme'', Raw = ''JPEG-B''\<rparr>
      else if ex = ''c'' then
        Inr \<lparr>Image.ID = 3, LabelID = 0, LabelText = ''cat'', Organization = ''acme'', Raw = ''JPEG-C''\<rparr>
      else if ex = ''d'' then
        Inr \<lparr>Image.ID = 1, LabelID = 0, LabelText = ''cat'', Organization = ''other'', Raw = ''JPEG-D''\<rparr>
      else Inl (LibError ''bad example''))"

definition demo_decoder :: decoder where
  "demo_decoder =
     \<lparr>zlib_NewReader = (\<lambda>n. case n of File c \<Rightarrow> None | Dir \<Rightarrow> Some (PathError ''read'' [] EISDIR)),
      records = (\<lambda>z n. case n of
                   File c \<Rightarrow>
                     map (\<lambda>ch. if ch = CHR ''!'' then NextError (LibError ''corrupt record'')
                               else NextRecord [ch]) c
                 | Dir \<Rightarrow> [NextError (PathError ''read'' [] EISDIR)]),
      NewImageFromExample = demo_image\<rparr>"

definition demo_world :: "string \<Rightarrow> world" where
  "demo_world c =
     \<lparr>nodes = [''/in'' \<mapsto> Dir, ''/in/shard'' \<mapsto> File c],
      fault = (\<lambda>op p. None),
      listing = (\<lambda>p. if p = ''/in'' then [\<lparr>Name = ''shard'', IsDir = False\<rparr>] else []),
      cwd = ''/home'',
      NumCPU = 2\<rparr>"

definition cat1 :: ImageRecord where
  "cat1 = \<lparr>Path = ''/out/cat/1.jpg'', ID = 1, LabelID = 0, LabelText = ''cat'', Organization = ''acme''\<rparr>"

definition dog2 :: ImageRecord where
  "dog2 = \<lparr>Path = ''/out/dog/2.jpg'', ID = 2, LabelID = 1, LabelText = ''dog'', Organization = ''acme''\<rparr>"

definition cat3 :: ImageRecord where
  "cat3 = \<lparr>Path = ''/out/cat/3.jpg'', ID = 3, LabelID = 0, LabelText = ''cat'', Organization = ''acme''\<rparr>"

definition cat1d :: ImageRecord where
  "cat1d = \<lparr>Path = ''/out/cat/1.jpg'', ID = 1, LabelID = 0, LabelText = ''cat'', Organization = ''other''\<rparr>"

definition demo_out :: "string \<Rightarrow> world" where
  "demo_out c = snd (MkdirAll ''/out'' (demo_world c))"

definition demo_worker :: "string \<Rightarrow> pipeline" where
  "demo_worker c = (spawn ''/in'' ''/out'' 1 False (demo_out c))\<lparr>workers := [W_Run ''/in/shard'']\<rparr>"



text \<open>An input directory with two shards and a sub-directory between them.\<close>

definition demo_tree :: world where
  "demo_tree =
     \<lparr>nodes = [''/in'' \<mapsto> Dir, ''/in/a'' \<mapsto> File ''a'', ''/in/m'' \<mapsto> Dir,
               ''/in/z'' \<mapsto> File ''bc'', ''/out'' \<mapsto> Dir],
      fault = (\<lambda>op p. None),
      listing = (\<lambda>p. if p = ''/in'' then
                   [\<lparr>Name = ''a'', IsDir = False\<rparr>, \<lparr>Name = ''m'', IsDir = True\<rparr>,
                    \<lparr>Name = ''z'', IsDir = False\<rparr>]
                 else []),
      cwd = ''/home'',
      NumCPU = 2\<rparr>"

text \<open>
  An input directory that holds one sub-directory and no shard, a schedule that runs the
  pipeline over it to its end, and a schedule that runs the pipeline over \<open>demo_tree\<close>
  with two workers to its end, the shard \<open>z\<close> delivered before the shard \<open>a\<close>.
\<close>

definition demo_empty :: world where
  "demo_empty =
     \<lparr>nodes = [''/in'' \<mapsto> Dir, ''/in/m'' \<mapsto> Dir, ''/out'' \<mapsto> Dir],
      fault = (\<lambda>op p. None),
      listing = (\<lambda>p. if p = ''/in'' then [\<lparr>Name = ''m'', IsDir = True\<rparr>] else []),
      cwd = ''/home'',
      NumCPU = 2\<rparr>"

definition demo_idle_schedule :: "event list" where
  "demo_idle_schedule =
     [MainStep, MainStep, EnumStep, EnumStep, EnumStep, EnumStep, WorkerStep 0, WorkerStep 0,
      CloserStep, CloserStep, MainStep, MainStep, MainStep]"







section \<open>Observing an outcome\<close>

text \<open>The error \<open>Extract\<close> returned, if it has returned, and the file system it left.\<close>

fun returned :: "outcome \<Rightarrow> error option option" where
  "returned (Returned r w) = Some r"
| "returned (Spawned s) = None"

fun outcome_world :: "outcome \<Rightarrow> world" where
  "outcome_world (Returned r w) = w"
| "outcome_world (Spawned s) = disk s"

section \<open>What has been written\<close>





text \<open>Two file systems that differ in their nodes only.\<close>

definition same_env :: "world \<Rightarrow> world \<Rightarrow> bool" where
  "same_env w w' = (fault w' = fault w \<and> listing w' = listing w \<and> cwd w' = cwd w \<and>
     NumCPU w' = NumCPU w)"

section \<open>What happened in a run\<close>

text \<open>
  What a run of the pipeline did, read off its events: \<open>trace f D evs s\<close> collects
  \<open>f ev s'\<close> for every event \<open>ev\<close> of the schedule that happens, \<open>s'\<close> being the state it
  happens in.
\<close>

fun trace :: "(event \<Rightarrow> pipeline \<Rightarrow> 'a list) \<Rightarrow> decoder \<Rightarrow> event list \<Rightarrow> pipeline \<Rightarrow> 'a list" where
  "trace f D [] s = []"
| "trace f D (ev # evs) s =
     (case step D ev s of None \<Rightarrow> [] | Some s' \<Rightarrow> f ev s @ trace f D evs s')"

text \<open>The path a worker receives from the enumerator.\<close>

fun handed :: "event \<Rightarrow> pipeline \<Rightarrow> path list" where
  "handed (Handoff i) s =
     (case enumerator s of
        E_Loop (f # fs) \<Rightarrow> [Join [cfg_inputPath s, Name f]]
      | _ \<Rightarrow> [])"
| "handed ev s = []"

text \<open>The record list \<open>Extract\<close> receives from a worker.\<close>

fun received :: "event \<Rightarrow> pipeline \<Rightarrow> ImageRecord list list" where
  "received (Deliver i) s = (case workers s ! i of W_Send im \<Rightarrow> [im] | _ \<Rightarrow> [])"
| "received ev s = []"




text \<open>The result of the \<^verbatim>\<open>os.Create\<close> of the index file.\<close>

fun created :: "event \<Rightarrow> pipeline \<Rightarrow> error option list" where
  "created MainStep s =
     (case mainpc s of
        M_Create \<Rightarrow> [fst (Create (Join [cfg_outdir s, InfoFile]) (disk s))]
      | _ \<Rightarrow> [])"
| "created ev s = []"

text \<open>The paths the enumerator of lines 109 to 119 sends when nothing cancels it.\<close>

definition shard_paths :: "path \<Rightarrow> FileInfo list \<Rightarrow> path list" where
  "shard_paths inputPath files = map (\<lambda>f. Join [inputPath, Name f]) (filter (\<lambda>f. \<not> IsDir f) files)"


text \<open>What holds of \<open>Extract\<close> at each of its control points, \<open>cr\<close> being the results of
  \<^verbatim>\<open>os.Create\<close> so far.\<close>

definition main_inv :: "error option list \<Rightarrow> pipeline \<Rightarrow> bool" where
  "main_inv cr s =
     (case mainpc s of
        M_Create \<Rightarrow> cr = []
      | M_Header \<Rightarrow> cr = [None] \<and> csvw s = NewWriter (Join [cfg_outdir s, InfoFile])
      | M_Range \<Rightarrow> cr = [None]
      | M_Wait \<Rightarrow> cr = [None] \<and> all_done s
      | M_Flush \<Rightarrow> cr = [None] \<and> all_done s \<and> g_err s = None
      | M_Ret r \<Rightarrow>
          (\<exists>e. cr = [Some e] \<and> r = Some e) \<or>
          (cr = [None] \<and> all_done s \<and>
             (case g_err s of Some e \<Rightarrow> r = Some e | None \<Rightarrow> r = w_err (csvw s))))"

text \<open>What holds of the enumerator at each of its control points, \<open>h\<close> being the paths it
  has handed over so far and \<open>all\<close> the paths it is to send.\<close>

definition enum_inv :: "path list \<Rightarrow> path list \<Rightarrow> pipeline \<Rightarrow> bool" where
  "enum_inv all h s =
     (case enumerator s of
        E_ReadDir \<Rightarrow> h = []
      | E_Loop fs \<Rightarrow> h @ shard_paths (cfg_inputPath s) fs = all
      | E_Ret None \<Rightarrow> h = all
      | E_Ret (Some e) \<Rightarrow> (\<exists>rest. h @ rest = all)
      | E_Done \<Rightarrow> (\<exists>rest. h @ rest = all) \<and> (g_err s = None \<longrightarrow> h = all))"

section \<open>Measures and invariants of the pipeline\<close>

text \<open>
  How many steps a goroutine still has before it is done, counted from its control point:
  the enumerator needs at most three steps per directory entry that is left (the iteration,
  the send, or the cancellation), a worker that runs a shard has the send and the return
  before it.  \<open>work_left\<close> is the sum over the pipeline; every step makes it smaller, so
  every run is finite.
\<close>

fun enum_rank :: "nat \<Rightarrow> enum_pc \<Rightarrow> nat" where
  "enum_rank L E_ReadDir = 3 * L + 3"
| "enum_rank L (E_Loop fs) = 3 * length fs + 2"
| "enum_rank L (E_Ret r) = 1"
| "enum_rank L E_Done = 0"

fun worker_rank :: "worker_pc \<Rightarrow> nat" where
  "worker_rank W_Recv = 2"
| "worker_rank (W_Run p) = 4"
| "worker_rank (W_Send im) = 3"
| "worker_rank (W_Ret r) = 1"
| "worker_rank W_Done = 0"

fun closer_rank :: "closer_pc \<Rightarrow> nat" where
  "closer_rank C_Wait = 2"
| "closer_rank C_Close = 1"
| "closer_rank C_Done = 0"

fun main_rank :: "main_pc \<Rightarrow> nat" where
  "main_rank M_Create = 5"
| "main_rank M_Header = 4"
| "main_rank M_Range = 3"
| "main_rank M_Wait = 2"
| "main_rank M_Flush = 1"
| "main_rank (M_Ret r) = 0"

definition work_left :: "pipeline \<Rightarrow> nat" where
  "work_left s =
     enum_rank (length (listing (disk s) (cfg_inputPath s))) (enumerator s) +
     sum_list (map worker_rank (workers s)) + closer_rank (closer s) + main_rank (mainpc s)"

text \<open>
  The pipeline over a directory with no eligible shard: no error is recorded, the
  enumerator has only sub-directories before it, and no worker ever leaves its receive
  other than by the closed channel.  \<open>idle_main w w3\<close> follows \<open>Extract\<close> itself from the
  disk \<open>w\<close> it starts on to the disk \<open>w3\<close> on which the index file has been created.
\<close>

definition idle_group :: "pipeline \<Rightarrow> bool" where
  "idle_group s =
     (g_err s = None \<and>
      (case enumerator s of
         E_ReadDir \<Rightarrow> True
       | E_Loop fs \<Rightarrow> list_all IsDir fs
       | E_Ret r \<Rightarrow> r = None \<and> paths_closed s
       | E_Done \<Rightarrow> paths_closed s) \<and>
      list_all (\<lambda>p. p = W_Recv \<or> p = W_Ret None \<or> p = W_Done) (workers s) \<and>
      (closer s = C_Done \<longrightarrow> images_closed s))"

definition idle_main :: "world \<Rightarrow> world \<Rightarrow> pipeline \<Rightarrow> bool" where
  "idle_main w w3 s =
     (case mainpc s of
         M_Create \<Rightarrow> disk s = w
       | M_Header \<Rightarrow> disk s = w3 \<and> csvw s = NewWriter (Join [cfg_outdir s, InfoFile])
       | M_Ret r \<Rightarrow>
           r = None \<and> file_at (disk s) (Join [cfg_outdir s, InfoFile]) = Some (csv_line header)
       | _ \<Rightarrow>
           disk s = w3 \<and>
           csvw s = (NewWriter (Join [cfg_outdir s, InfoFile]))\<lparr>w_buf := csv_line header\<rparr>)"



section \<open>Properties of paths and of the decimal rendering\<close>

lemma split_sep_nonempty [simp]: "split_sep s \<noteq> []"
  by (induction s) (auto split: list.splits)

lemma split_sep_noslash: "CHR ''/'' \<notin> set s \<Longrightarrow> split_sep s = [s]"
  by (induction s) (auto split: list.splits)

lemma split_sep_append:
  "split_sep (a @ CHR ''/'' # b) = split_sep a @ split_sep b"
proof (induction a)
  case Nil
  then show ?case by simp
next
  case (Cons c a)
  then show ?case by (cases "split_sep a") (auto split: list.splits)
qed

lemma split_sep_join:
  "zs \<noteq> [] \<Longrightarrow> split_sep (join_sep zs) = concat (map split_sep zs)"
proof (induction zs)
  case Nil
  then show ?case by simp
next
  case (Cons z zs)
  then show ?case by (cases zs) (simp_all add: split_sep_append)
qed

lemma clean_elems_plain:
  "list_all plain ps \<Longrightarrow> clean_elems r acc ps = rev acc @ ps"
  by (induction ps arbitrary: acc) (auto simp: plain_def)

lemma clean_elems_suffix:
  "list_all plain ps \<Longrightarrow> \<exists>acc'. clean_elems r acc (xs @ ps) = rev acc' @ ps"
proof (induction xs arbitrary: acc)
  case Nil
  then show ?case using clean_elems_plain by auto
next
  case (Cons x xs)
  then show ?case by (auto split: list.splits)
qed

lemma concat_split_plain:
  "list_all plain ps \<Longrightarrow> concat (map split_sep ps) = ps"
  by (induction ps) (auto simp: plain_def split_sep_noslash)

lemma Clean_suffix:
  assumes ps: "list_all plain ps" and ne: "ps \<noteq> []"
  shows "\<exists>xs. split_sep (Clean (join_sep (es @ ps))) = xs @ ps"
proof -
  let ?p = "join_sep (es @ ps)"
  have sp: "split_sep ?p = concat (map split_sep es) @ ps"
    using ne concat_split_plain[OF ps] by (simp add: split_sep_join)
  have pne: "?p \<noteq> []"
  proof
    assume "?p = []"
    then have "split_sep ?p = [[]]" by simp
    then have "concat (map split_sep es) @ ps = [[]]" using sp by simp
    then have "ps = [[]]" using ne by (simp add: append_eq_Cons_conv)
    then show False using ps by (simp add: plain_def)
  qed
  obtain acc' where ce: "clean_elems (hd ?p = CHR ''/'') [] (split_sep ?p) = rev acc' @ ps"
    using clean_elems_suffix[OF ps, of "hd ?p = CHR ''/''" "[]" "concat (map split_sep es)"] sp
    by auto
  have j: "split_sep (join_sep (rev acc' @ ps)) = concat (map split_sep (rev acc')) @ ps"
    using ne concat_split_plain[OF ps] by (simp add: split_sep_join)
  show ?thesis
  proof (cases "hd ?p = CHR ''/''")
    case True
    then have "Clean ?p = CHR ''/'' # join_sep (rev acc' @ ps)"
      using pne ce by (simp add: Clean_def Let_def)
    then show ?thesis using j by simp
  next
    case False
    then have "Clean ?p = join_sep (rev acc' @ ps)"
      using pne ce ne by (simp add: Clean_def Let_def)
    then show ?thesis using j by simp
  qed
qed

lemma dropWhile_suffix:
  assumes "ps \<noteq> []" "list_all plain ps"
  shows "\<exists>es'. dropWhile (\<lambda>e. e = []) (es @ ps) = es' @ ps"
proof (induction es)
  case Nil
  have "hd ps \<noteq> []" using assms by (cases ps) (auto simp: plain_def)
  then have "dropWhile (\<lambda>e. e = []) ps = ps" using assms(1) by (cases ps) auto
  then show ?case by simp
next
  case (Cons e es)
  then show ?case by (cases "e = []") (auto intro: exI[of _ "e # es"])
qed

lemma Join_suffix:
  assumes ps: "list_all plain ps" and ne: "ps \<noteq> []"
  shows "\<exists>xs. split_sep (Join (es @ ps)) = xs @ ps"
proof -
  obtain es' where d: "dropWhile (\<lambda>e. e = []) (es @ ps) = es' @ ps"
    using dropWhile_suffix[OF ne ps] by blast
  obtain z zs where z: "es' @ ps = z # zs" using ne by (cases "es' @ ps") auto
  have "Join (es @ ps) = Clean (join_sep (es' @ ps))"
    unfolding Join_def d z by simp
  then show ?thesis using Clean_suffix[OF ps ne, of es'] by simp
qed

lemma digit_char_cases:
  assumes "d < 10"
  shows "is_digit (digit_char d) \<and> digit_val (digit_char d) = d"
proof -
  have "d \<in> {0, 1, 2, 3, 4, 5, 6, 7, 8, 9}" using assms by auto
  then show ?thesis
    by (auto simp: digit_char_def is_digit_def digit_val_def)
qed

lemma digits_nonempty: "digits n \<noteq> []"
  by (subst digits.simps) simp

lemma digits_are_digits: "list_all is_digit (digits n)"
proof (induction n rule: digits.induct)
  case (1 n)
  show ?case
  proof (cases "n < 10")
    case True
    then show ?thesis using digit_char_cases[of n] by (subst digits.simps) simp
  next
    case False
    then show ?thesis using 1 digit_char_cases[of "n mod 10"] by (subst digits.simps) simp
  qed
qed

lemma decimal_val_snoc: "decimal_val (s @ [c]) = 10 * decimal_val s + digit_val c"
  by (simp add: decimal_val_def)

lemma decimal_val_digits: "decimal_val (digits n) = n"
proof (induction n rule: digits.induct)
  case (1 n)
  show ?case
  proof (cases "n < 10")
    case True
    then show ?thesis using digit_char_cases[of n]
      by (subst digits.simps) (simp add: decimal_val_def)
  next
    case False
    then show ?thesis using 1 digit_char_cases[of "n mod 10"]
      by (subst digits.simps) (simp add: decimal_val_snoc)
  qed
qed

lemma minus_not_digit: "\<not> is_digit (CHR ''-'')" "\<not> is_digit (CHR ''/'')"
  by (simp_all add: is_digit_def)

lemma Atoi_Itoa: "Atoi (Itoa i) = Some i"
proof (cases "i < 0")
  case True
  then show ?thesis
    using digits_nonempty[of "nat (- i)"] digits_are_digits[of "nat (- i)"]
    by (simp add: Atoi_def Itoa_def decimal_val_digits)
next
  case False
  obtain c r where cr: "digits (nat i) = c # r"
    using digits_nonempty[of "nat i"] by (cases "digits (nat i)") auto
  have "is_digit c" using digits_are_digits[of "nat i"] cr by simp
  then have "c \<noteq> CHR ''-''" using minus_not_digit by auto
  then show ?thesis
    using False cr digits_are_digits[of "nat i"] decimal_val_digits[of "nat i"]
    by (simp add: Atoi_def Itoa_def)
qed

lemma Itoa_inj: "Itoa i = Itoa j \<Longrightarrow> i = j"
  by (metis Atoi_Itoa option.inject)

lemma Itoa_noslash: "CHR ''/'' \<notin> set (Itoa i)"
proof -
  have "CHR ''/'' \<notin> set (digits n)" for n
    using digits_are_digits[of n] minus_not_digit(2) by (auto simp: list_all_iff)
  then show ?thesis by (simp add: Itoa_def)
qed

lemma Itoa_nonempty: "Itoa i \<noteq> []"
  using digits_nonempty by (simp add: Itoa_def)

lemma plain_jpg: "plain (Itoa i @ ''.jpg'')"
proof -
  have "length (Itoa i @ ''.jpg'') > 2" by simp
  then have "Itoa i @ ''.jpg'' \<noteq> ''.''" "Itoa i @ ''.jpg'' \<noteq> ''..''"
    by (metis length_Cons list.size(3) less_irrefl_nat numeral_2_eq_2 One_nat_def less_Suc_eq not_less_eq)+
  then show ?thesis using Itoa_noslash[of i] by (simp add: plain_def)
qed

lemma plain_InfoFile: "plain InfoFile"
  by (simp add: plain_def InfoFile_def)

lemma fname_not_InfoFile: "fname outdir img \<noteq> Join [outdir, InfoFile]"
proof
  assume eq: "fname outdir img = Join [outdir, InfoFile]"
  let ?f = "Itoa (Image.ID img) @ ''.jpg''"
  obtain xs where a: "split_sep (fname outdir img) = xs @ [?f]"
    using Join_suffix[of "[?f]" "[outdir, Image.LabelText img]"] plain_jpg
    by (auto simp: fname_def)
  obtain ys where b: "split_sep (Join [outdir, InfoFile]) = ys @ [InfoFile]"
    using Join_suffix[of "[InfoFile]" "[outdir]"] plain_InfoFile by auto
  have "?f = InfoFile" using a b eq by simp
  then have "last ?f = last InfoFile" by simp
  then show False by (simp add: InfoFile_def)
qed

lemma fname_inj:
  assumes "plain (Image.LabelText a)" "plain (Image.LabelText b)"
    and "fname outdir a = fname outdir b"
  shows "Image.LabelText a = Image.LabelText b \<and> Image.ID a = Image.ID b"
proof -
  obtain xs where x: "split_sep (fname outdir a) =
      xs @ [Image.LabelText a, Itoa (Image.ID a) @ ''.jpg'']"
    using Join_suffix[of "[Image.LabelText a, Itoa (Image.ID a) @ ''.jpg'']" "[outdir]"]
      plain_jpg assms(1) by (auto simp: fname_def)
  obtain ys where y: "split_sep (fname outdir b) =
      ys @ [Image.LabelText b, Itoa (Image.ID b) @ ''.jpg'']"
    using Join_suffix[of "[Image.LabelText b, Itoa (Image.ID b) @ ''.jpg'']" "[outdir]"]
      plain_jpg assms(2) by (auto simp: fname_def)
  have "xs @ [Image.LabelText a, Itoa (Image.ID a) @ ''.jpg''] =
      ys @ [Image.LabelText b, Itoa (Image.ID b) @ ''.jpg'']"
    using x y assms(3) by simp
  then have "Image.LabelText a = Image.LabelText b" "Itoa (Image.ID a) = Itoa (Image.ID b)"
    by simp_all
  then show ?thesis using Itoa_inj by simp
qed

section \<open>Properties of the file system operations\<close>

lemma mkdir_step_cases:
  assumes "mkdir_step p w = (r, w')"
  shows "(w' = w \<or> (r = None \<and> nodes w p = None \<and> w' = w\<lparr>nodes := (nodes w)(p \<mapsto> Dir)\<rparr>))
         \<and> (r = None \<longrightarrow> nodes w' p = Some Dir)"
proof (cases "nodes w p")
  case None
  show ?thesis
  proof (cases "fault w OpMkdir p")
    case (Some e)
    then have "r = Some e" "w' = w" using assms None by (simp_all add: mkdir_step_def)
    then show ?thesis by simp
  next
    case n: None
    then have "r = None" "w' = w\<lparr>nodes := (nodes w)(p \<mapsto> Dir)\<rparr>"
      using assms None by (simp_all add: mkdir_step_def)
    then show ?thesis using None by simp
  qed
next
  case (Some n)
  then show ?thesis using assms by (cases n) (auto simp: mkdir_step_def)
qed

lemma mkdir_step_file_at:
  assumes "mkdir_step p w = (r, w')"
  shows "file_at w' q = file_at w q"
proof (cases "nodes w p")
  case None
  then show ?thesis using assms
    by (cases "fault w OpMkdir p") (auto simp: mkdir_step_def file_at_def)
next
  case (Some n)
  then show ?thesis using assms by (cases n) (auto simp: mkdir_step_def)
qed

lemma mkdir_step_dir_mono:
  "mkdir_step p w = (r, w') \<Longrightarrow> nodes w q = Some Dir \<Longrightarrow> nodes w' q = Some Dir"
  by (auto simp: mkdir_step_def split: option.splits node.splits)

lemma mkdir_step_fault:
  "mkdir_step p w = (r, w') \<Longrightarrow> fault w' = fault w"
  by (auto simp: mkdir_step_def split: option.splits node.splits)

lemma mkdir_chain_file_at:
  "mkdir_chain ps w = (r, w') \<Longrightarrow> file_at w' q = file_at w q"
proof (induction ps arbitrary: w)
  case Nil
  then show ?case by simp
next
  case (Cons p ps)
  obtain r1 w1 where s: "mkdir_step p w = (r1, w1)" by force
  show ?case
  proof (cases r1)
    case None
    then show ?thesis using Cons s mkdir_step_file_at[OF s] by simp
  next
    case (Some e)
    then show ?thesis using Cons.prems s mkdir_step_file_at[OF s] by simp
  qed
qed

lemma mkdir_chain_dir_mono:
  "mkdir_chain ps w = (r, w') \<Longrightarrow> nodes w q = Some Dir \<Longrightarrow> nodes w' q = Some Dir"
proof (induction ps arbitrary: w)
  case Nil
  then show ?case by simp
next
  case (Cons p ps)
  obtain r1 w1 where s: "mkdir_step p w = (r1, w1)" by force
  show ?case
  proof (cases r1)
    case None
    then show ?thesis using Cons s mkdir_step_dir_mono[OF s] by simp
  next
    case (Some e)
    then show ?thesis using Cons.prems s mkdir_step_dir_mono[OF s] by simp
  qed
qed

lemma mkdir_chain_made:
  "mkdir_chain ps w = (None, w') \<Longrightarrow> q \<in> set ps \<Longrightarrow> nodes w' q = Some Dir"
proof (induction ps arbitrary: w)
  case Nil
  then show ?case by simp
next
  case (Cons p ps)
  obtain r1 w1 where s: "mkdir_step p w = (r1, w1)" by force
  then have r1: "r1 = None" using Cons.prems(1) by (cases r1) auto
  then have c: "mkdir_chain ps w1 = (None, w')" using Cons.prems(1) s by simp
  have d: "nodes w1 p = Some Dir" using mkdir_step_cases[OF s] r1 by simp
  show ?case
  proof (cases "q = p")
    case True
    then show ?thesis using mkdir_chain_dir_mono[OF c d] by simp
  next
    case False
    then show ?thesis using Cons.IH[OF c] Cons.prems(2) by simp
  qed
qed

lemma mkdir_chain_noop:
  "\<forall>q\<in>set ps. nodes w q = Some Dir \<Longrightarrow> mkdir_chain ps w = (None, w)"
  by (induction ps) (auto simp: mkdir_step_def)

lemma MkdirAll_file_at:
  "MkdirAll p w = (r, w') \<Longrightarrow> file_at w' q = file_at w q"
  by (auto simp: MkdirAll_def mkdir_chain_file_at split: option.splits node.splits if_splits)

lemma MkdirAll_twice:
  assumes "MkdirAll p w = (None, w1)"
  shows "MkdirAll p w1 = (None, w1)"
proof (cases "nodes w p")
  case None
  then have ne: "p \<noteq> []" and c: "mkdir_chain (ancestors p) w = (None, w1)"
    using assms by (auto simp: MkdirAll_def split: if_splits)
  have all: "\<forall>q\<in>set (ancestors p). nodes w1 q = Some Dir"
    using mkdir_chain_made[OF c] by blast
  have nf: "file_at w1 p = None"
    using mkdir_chain_file_at[OF c, of p] None by (simp add: file_at_def)
  show ?thesis
  proof (cases "nodes w1 p")
    case None
    then show ?thesis using ne mkdir_chain_noop[OF all] by (simp add: MkdirAll_def)
  next
    case (Some n)
    then show ?thesis using nf by (cases n) (auto simp: MkdirAll_def file_at_def)
  qed
next
  case (Some n)
  then show ?thesis using assms by (cases n) (auto simp: MkdirAll_def)
qed

lemma Create_ok:
  assumes "Create p w = (None, w')"
  shows "w' = w\<lparr>nodes := (nodes w)(p \<mapsto> File [])\<rparr> \<and> nodes w p \<noteq> Some Dir"
  using assms
  by (auto simp: Create_def split: option.splits node.splits)

lemma Create_file_at:
  assumes "Create p w = (None, w')"
  shows "file_at w' q = (if q = p then Some [] else file_at w q)"
  using Create_ok[OF assms] by (cases "q = p") (simp_all add: file_at_def)

lemma Create_fail: "Create p w = (Some e, w') \<Longrightarrow> w' = w"
  by (auto simp: Create_def split: option.splits node.splits)

lemma write_file_ok:
  assumes "write_file p bs w = (None, w')"
  shows "\<exists>c. nodes w p = Some (File c) \<and> w' = w\<lparr>nodes := (nodes w)(p \<mapsto> File (c @ bs))\<rparr>"
  using assms
  by (auto simp: write_file_def split: option.splits node.splits)

lemma write_file_file_at:
  assumes "write_file p bs w = (None, w')"
  shows "\<exists>c. file_at w p = Some c \<and> file_at w' q = (if q = p then Some (c @ bs) else file_at w q)"
proof -
  obtain c where c: "nodes w p = Some (File c)" "w' = w\<lparr>nodes := (nodes w)(p \<mapsto> File (c @ bs))\<rparr>"
    using write_file_ok[OF assms] by blast
  then show ?thesis by (cases "q = p") (simp_all add: file_at_def)
qed

lemma write_file_fail: "write_file p bs w = (Some e, w') \<Longrightarrow> w' = w"
  by (auto simp: write_file_def split: option.splits node.splits)

lemma Save_ok:
  assumes "Save img f w = (None, w')"
  shows "file_at w' q = (if q = f then Some (Raw img) else file_at w q)"
proof -
  obtain w1 where c: "Create f w = (None, w1)" and wr: "write_file f (Raw img) w1 = (None, w')"
    using assms by (auto simp: Save_def split: prod.splits option.splits)
  show ?thesis using Create_file_at[OF c] write_file_file_at[OF wr, of q] by auto
qed

lemma Save_keeps:
  assumes "Save img f w = (r, w')" and "file_at w q \<noteq> None"
  shows "file_at w' q \<noteq> None"
proof -
  obtain r1 w1 where c: "Create f w = (r1, w1)" by force
  show ?thesis
  proof (cases r1)
    case (Some e)
    then show ?thesis using assms c Create_fail[of f w e w1] by (simp add: Save_def)
  next
    case None
    then have k1: "file_at w1 q \<noteq> None" using Create_file_at[of f w w1 q] c assms(2) by auto
    have wr: "write_file f (Raw img) w1 = (r, w')" using assms(1) c None by (simp add: Save_def)
    show ?thesis
    proof (cases r)
      case None
      then show ?thesis using write_file_file_at[of f "Raw img" w1 w' q] wr k1 by auto
    next
      case (Some e)
      then show ?thesis using write_file_fail[of f "Raw img" w1 e w'] wr k1 by simp
    qed
  qed
qed

lemma Save_other:
  assumes "Save img f w = (r, w')" and "q \<noteq> f"
  shows "file_at w' q = file_at w q"
proof -
  obtain r1 w1 where c: "Create f w = (r1, w1)" by force
  show ?thesis
  proof (cases r1)
    case (Some e)
    then show ?thesis using assms c Create_fail[of f w e w1] by (simp add: Save_def)
  next
    case None
    then have k1: "file_at w1 q = file_at w q" using Create_file_at[of f w w1 q] c assms(2) by auto
    have wr: "write_file f (Raw img) w1 = (r, w')" using assms(1) c None by (simp add: Save_def)
    show ?thesis
    proof (cases r)
      case None
      then show ?thesis using write_file_file_at[of f "Raw img" w1 w' q] wr k1 assms(2) by auto
    next
      case (Some e)
      then show ?thesis using write_file_fail[of f "Raw img" w1 e w'] wr k1 by simp
    qed
  qed
qed

section \<open>Properties of the extraction loop\<close>

lemma extract_loop_acc:
  "extract_loop D outdir rs acc w =
     (case extract_loop D outdir rs [] w of
        (Inl e, w') \<Rightarrow> (Inl e, w')
      | (Inr im, w') \<Rightarrow> (Inr (acc @ im), w'))"
proof (induction rs arbitrary: acc w)
  case Nil
  then show ?case by simp
next
  case (Cons x rs)
  show ?case
  proof (cases x)
    case (NextError e)
    then show ?thesis by simp
  next
    case (NextRecord ex)
    show ?thesis
    proof (cases "NewImageFromExample D ex")
      case (Inl e)
      then show ?thesis using NextRecord by simp
    next
      case (Inr img)
      obtain r1 w1 where m: "MkdirAll (label_dir outdir img) w = (r1, w1)" by force
      obtain r2 w2 where s: "Save img (fname outdir img) w1 = (r2, w2)" by force
      show ?thesis
      proof (cases "r1 = None \<and> r2 = None")
        case True
        show ?thesis
          using NextRecord Inr m s True
            Cons.IH[of "acc @ [ir outdir img]" w2] Cons.IH[of "[ir outdir img]" w2]
          by (simp split: prod.splits sum.splits)
      next
        case False
        then show ?thesis using NextRecord Inr m s by (auto split: option.splits)
      qed
    qed
  qed
qed

lemma extract_loop_append:
  "extract_loop D outdir (map NextRecord exs @ rest) acc w =
     (case extract_loop D outdir (map NextRecord exs) acc w of
        (Inl e, w') \<Rightarrow> (Inl e, w')
      | (Inr im, w') \<Rightarrow> extract_loop D outdir rest im w')"
proof (induction exs arbitrary: acc w)
  case Nil
  then show ?case by simp
next
  case (Cons ex exs)
  show ?case
    by (simp add: Cons.IH split: sum.splits prod.splits option.splits)
qed

text \<open>One iteration on a record, when it goes through.\<close>

lemma extract_loop_record_ok:
  assumes "extract_loop D outdir (NextRecord ex # r) acc w = (Inr images, w')"
  shows "\<exists>img w1 w2. NewImageFromExample D ex = Inr img \<and>
           MkdirAll (label_dir outdir img) w = (None, w1) \<and>
           Save img (fname outdir img) w1 = (None, w2) \<and>
           extract_loop D outdir r (acc @ [ir outdir img]) w2 = (Inr images, w')"
proof (cases "NewImageFromExample D ex")
  case (Inl e)
  then show ?thesis using assms by simp
next
  case (Inr img)
  obtain r1 w1 where m: "MkdirAll (label_dir outdir img) w = (r1, w1)" by force
  obtain r2 w2 where s: "Save img (fname outdir img) w1 = (r2, w2)" by force
  have r1: "r1 = None" using assms Inr m by (cases r1) auto
  have r2: "r2 = None" using assms Inr m r1 s by (cases r2) auto
  show ?thesis using assms Inr m s r1 r2 by simp
qed

lemma take_stream_records:
  "k \<le> length (stream_records rs) \<Longrightarrow> take k rs = map NextRecord (take k (stream_records rs))"
proof (induction rs arbitrary: k)
  case Nil
  then show ?case by simp
next
  case (Cons x rs)
  show ?case
  proof (cases x)
    case (NextError e)
    then show ?thesis using Cons.prems by simp
  next
    case (NextRecord ex)
    then show ?thesis using Cons by (cases k) simp_all
  qed
qed

lemma stream_records_map [simp]: "stream_records (map NextRecord exs) = exs"
  by (induction exs) simp_all

lemma extract_loop_decoded:
  assumes "extract_loop D outdir rs [] w = (Inr images, w')"
  shows "\<exists>imgs. map (NewImageFromExample D) (stream_records rs) = map Inr imgs \<and>
           images = map (ir outdir) imgs"
  using assms
proof (induction rs arbitrary: w images)
  case Nil
  then show ?case by simp
next
  case (Cons x rs)
  show ?case
  proof (cases x)
    case (NextError e)
    then show ?thesis using Cons.prems by (simp split: if_splits)
  next
    case (NextRecord ex)
    obtain img w1 w2 where st: "NewImageFromExample D ex = Inr img"
      "extract_loop D outdir rs ([] @ [ir outdir img]) w2 = (Inr images, w')"
      using extract_loop_record_ok[of D outdir ex rs "[]" w images w'] Cons.prems NextRecord
      by blast
    obtain im where im: "extract_loop D outdir rs [] w2 = (Inr im, w')"
      "images = ir outdir img # im"
      using st(2) extract_loop_acc[of D outdir rs "[ir outdir img]" w2]
      by (auto split: prod.splits sum.splits)
    obtain imgs where "map (NewImageFromExample D) (stream_records rs) = map Inr imgs"
      "im = map (ir outdir) imgs"
      using Cons.IH[OF im(1)] by blast
    then have "map (NewImageFromExample D) (stream_records (x # rs)) = map Inr (img # imgs) \<and>
        images = map (ir outdir) (img # imgs)"
      using NextRecord st(1) im(2) by simp
    then show ?thesis by blast
  qed
qed

lemma extract_loop_keeps_files:
  assumes "file_at w q \<noteq> None"
  shows "file_at (snd (extract_loop D outdir rs acc w)) q \<noteq> None"
  using assms
proof (induction rs arbitrary: acc w)
  case Nil
  then show ?case by simp
next
  case (Cons x rs)
  show ?case
  proof (cases x)
    case (NextError e)
    then show ?thesis using Cons.prems by simp
  next
    case (NextRecord ex)
    show ?thesis
    proof (cases "NewImageFromExample D ex")
      case (Inl e)
      then show ?thesis using NextRecord Cons.prems by simp
    next
      case (Inr img)
      obtain r1 w1 where m: "MkdirAll (label_dir outdir img) w = (r1, w1)" by force
      obtain r2 w2 where s: "Save img (fname outdir img) w1 = (r2, w2)" by force
      have k1: "file_at w1 q \<noteq> None" using MkdirAll_file_at[OF m] Cons.prems by simp
      have k2: "file_at w2 q \<noteq> None" using Save_keeps[OF s k1] .
      show ?thesis
      proof (cases r1)
        case (Some e)
        then show ?thesis using NextRecord Inr m k1 by simp
      next
        case None
        show ?thesis
        proof (cases r2)
          case (Some e)
          then show ?thesis using NextRecord Inr m s None k2 by simp
        next
          case n2: None
          then show ?thesis using NextRecord Inr m s None Cons.IH[OF k2] by simp
        qed
      qed
    qed
  qed
qed

lemma nth_stream_records:
  "k < length (stream_records rs) \<Longrightarrow>
     k < length rs \<and> rs ! k = NextRecord (stream_records rs ! k)"
proof (induction rs arbitrary: k)
  case Nil
  then show ?case by simp
next
  case (Cons x rs)
  show ?case
  proof (cases x)
    case (NextError e)
    then show ?thesis using Cons.prems by simp
  next
    case (NextRecord ex)
    then show ?thesis using Cons by (cases k) simp_all
  qed
qed

lemma drop_stream_records:
  "drop (length (stream_records rs)) rs = [] \<or>
     (\<exists>e r. drop (length (stream_records rs)) rs = NextError e # r)"
proof (induction rs)
  case Nil
  then show ?case by simp
next
  case (Cons x rs)
  then show ?case by (cases x) simp_all
qed

lemma extract_loop_prefix:
  assumes run: "extract_loop D outdir rs [] w = (Inr images, w')"
    and k: "k \<le> length (stream_records rs)"
  shows "extract_loop D outdir (take k rs) [] w =
           (Inr (take k images), world_after D outdir rs k w)"
    and "extract_loop D outdir (drop k rs) (take k images) (world_after D outdir rs k w) =
           (Inr images, w')"
proof -
  let ?exs = "stream_records rs"
  have tk: "take k rs = map NextRecord (take k ?exs)" using take_stream_records[OF k] .
  have "extract_loop D outdir (map NextRecord (take k ?exs) @ drop k rs) [] w = (Inr images, w')"
    using run tk[symmetric] by simp
  then obtain im wk where pre: "extract_loop D outdir (take k rs) [] w = (Inr im, wk)"
    and post: "extract_loop D outdir (drop k rs) im wk = (Inr images, w')"
    unfolding extract_loop_append tk by (auto split: prod.splits sum.splits)
  have wk: "wk = world_after D outdir rs k w" using pre by (simp add: world_after_def)
  obtain imgs where imgs: "map (NewImageFromExample D) ?exs = map Inr imgs"
    "images = map (ir outdir) imgs"
    using extract_loop_decoded[OF run] by blast
  obtain imgsk where imgsk: "map (NewImageFromExample D) (stream_records (take k rs)) = map Inr imgsk"
    "im = map (ir outdir) imgsk"
    using extract_loop_decoded[OF pre] by blast
  have "map Inr imgsk = map (NewImageFromExample D) (take k ?exs)"
    using imgsk(1) tk by simp
  also have "\<dots> = take k (map (NewImageFromExample D) ?exs)" by (simp only: take_map)
  also have "\<dots> = take k (map Inr imgs)" using imgs(1) by simp
  also have "\<dots> = map Inr (take k imgs)" by (simp only: take_map)
  finally have "imgsk = take k imgs" by (simp add: inj_map_eq_map)
  then have im: "im = take k images" using imgsk(2) imgs(2) by (simp add: take_map)
  show "extract_loop D outdir (take k rs) [] w =
           (Inr (take k images), world_after D outdir rs k w)"
    using pre im wk by simp
  show "extract_loop D outdir (drop k rs) (take k images) (world_after D outdir rs k w) =
           (Inr images, w')"
    using post im wk by simp
qed

lemma extract_loop_final:
  assumes run: "extract_loop D outdir rs [] w = (Inr images, w')"
  shows "w' = world_after D outdir rs (length (stream_records rs)) w"
proof -
  let ?n = "length (stream_records rs)"
  have post: "extract_loop D outdir (drop ?n rs) (take ?n images)
      (world_after D outdir rs ?n w) = (Inr images, w')"
    using extract_loop_prefix(2)[OF run, of ?n] by simp
  from drop_stream_records[of rs] show ?thesis
  proof
    assume "drop ?n rs = []"
    then show ?thesis using post by simp
  next
    assume "\<exists>e r. drop ?n rs = NextError e # r"
    then obtain e r where "drop ?n rs = NextError e # r" by blast
    then show ?thesis using post by (simp split: if_splits)
  qed
qed

lemma extract_loop_iteration:
  assumes run: "extract_loop D outdir rs [] w = (Inr images, w')"
    and dec: "map (NewImageFromExample D) (stream_records rs) = map Inr imgs"
    and k: "k < length imgs"
  shows "\<exists>w1. MkdirAll (label_dir outdir (imgs ! k)) (world_after D outdir rs k w) = (None, w1) \<and>
           Save (imgs ! k) (fname outdir (imgs ! k)) w1 =
             (None, world_after D outdir rs (Suc k) w)"
    and "file_at w' (fname outdir (imgs ! k)) \<noteq> None"
proof -
  let ?exs = "stream_records rs"
  let ?wk = "world_after D outdir rs k w"
  have len: "length ?exs = length imgs" using dec by (metis length_map)
  then have kx: "k < length ?exs" using k by simp
  have nth: "k < length rs" "rs ! k = NextRecord (?exs ! k)"
    using nth_stream_records[OF kx] by simp_all
  have dk: "drop k rs = NextRecord (?exs ! k) # drop (Suc k) rs"
    using nth by (metis Cons_nth_drop_Suc)
  have "NewImageFromExample D (?exs ! k) = Inr (imgs ! k)"
    using dec kx k by (metis nth_map)
  moreover have "extract_loop D outdir (NextRecord (?exs ! k) # drop (Suc k) rs) (take k images) ?wk
      = (Inr images, w')"
    using extract_loop_prefix(2)[OF run, of k] kx dk by simp
  ultimately obtain w1 w2 where
    m: "MkdirAll (label_dir outdir (imgs ! k)) ?wk = (None, w1)" and
    s: "Save (imgs ! k) (fname outdir (imgs ! k)) w1 = (None, w2)" and
    rest: "extract_loop D outdir (drop (Suc k) rs) (take k images @ [ir outdir (imgs ! k)]) w2
      = (Inr images, w')"
    using extract_loop_record_ok[of D outdir "?exs ! k" "drop (Suc k) rs" "take k images" ?wk images w']
    by auto
  have "extract_loop D outdir (drop (Suc k) rs) (take (Suc k) images)
      (world_after D outdir rs (Suc k) w) = (Inr images, w')"
    using extract_loop_prefix(2)[OF run, of "Suc k"] kx by simp
  have tk: "take (Suc k) rs = map NextRecord (take k ?exs) @ [NextRecord (?exs ! k)]"
    using take_stream_records[of k rs] kx nth by (simp add: take_Suc_conv_app_nth)
  have pre: "extract_loop D outdir (map NextRecord (take k ?exs)) [] w = (Inr (take k images), ?wk)"
    using extract_loop_prefix(1)[OF run, of k] kx take_stream_records[of k rs] by simp
  have "extract_loop D outdir (take (Suc k) rs) [] w =
      extract_loop D outdir [NextRecord (?exs ! k)] (take k images) ?wk"
    unfolding tk extract_loop_append pre by simp
  also have "\<dots> = (Inr (take k images @ [ir outdir (imgs ! k)]), w2)"
    using \<open>NewImageFromExample D (?exs ! k) = Inr (imgs ! k)\<close> m s by simp
  finally have w2: "world_after D outdir rs (Suc k) w = w2" by (simp add: world_after_def)
  show "\<exists>w1. MkdirAll (label_dir outdir (imgs ! k)) ?wk = (None, w1) \<and>
           Save (imgs ! k) (fname outdir (imgs ! k)) w1 =
             (None, world_after D outdir rs (Suc k) w)"
    using m s w2 by blast
  have "file_at w2 (fname outdir (imgs ! k)) \<noteq> None" using Save_ok[OF s] by simp
  then have "file_at (snd (extract_loop D outdir (drop (Suc k) rs)
      (take k images @ [ir outdir (imgs ! k)]) w2)) (fname outdir (imgs ! k)) \<noteq> None"
    by (rule extract_loop_keeps_files)
  then show "file_at w' (fname outdir (imgs ! k)) \<noteq> None" using rest by simp
qed

lemma extract_loop_index_untouched:
  "file_at (snd (extract_loop D outdir rs acc w)) (Join [outdir, InfoFile]) =
     file_at w (Join [outdir, InfoFile])"
proof (induction rs arbitrary: acc w)
  case Nil
  then show ?case by simp
next
  case (Cons x rs)
  show ?case
  proof (cases x)
    case (NextError e)
    then show ?thesis by simp
  next
    case (NextRecord ex)
    show ?thesis
    proof (cases "NewImageFromExample D ex")
      case (Inl e)
      then show ?thesis using NextRecord by simp
    next
      case (Inr img)
      obtain r1 w1 where m: "MkdirAll (label_dir outdir img) w = (r1, w1)" by force
      obtain r2 w2 where s: "Save img (fname outdir img) w1 = (r2, w2)" by force
      have k1: "file_at w1 (Join [outdir, InfoFile]) = file_at w (Join [outdir, InfoFile])"
        using MkdirAll_file_at[OF m] .
      have k2: "file_at w2 (Join [outdir, InfoFile]) = file_at w1 (Join [outdir, InfoFile])"
        using Save_other[OF s] fname_not_InfoFile[of outdir img] by metis
      show ?thesis
      proof (cases r1)
        case (Some e)
        then show ?thesis using NextRecord Inr m k1 by simp
      next
        case None
        show ?thesis
        proof (cases r2)
          case (Some e)
          then show ?thesis using NextRecord Inr m s None k1 k2 by simp
        next
          case n2: None
          then show ?thesis using NextRecord Inr m s None k1 k2 Cons.IH[of _ w2] by simp
        qed
      qed
    qed
  qed
qed

lemma extractFile_index_untouched:
  "file_at (snd (extractFile D inputPath outdir compress w)) (Join [outdir, InfoFile]) =
     file_at w (Join [outdir, InfoFile])"
  by (auto simp: extractFile_def extract_loop_index_untouched split: sum.splits option.splits)

lemma extract_loop_all_saved:
  assumes run: "extract_loop D outdir rs [] w = (Inr images, w')"
  shows "\<forall>r\<in>set images. file_at w' (Path r) \<noteq> None"
proof -
  obtain imgs where dec: "map (NewImageFromExample D) (stream_records rs) = map Inr imgs"
    and im: "images = map (ir outdir) imgs"
    using extract_loop_decoded[OF run] by blast
  have "file_at w' (Path (images ! k)) \<noteq> None" if "k < length images" for k
    using extract_loop_iteration(2)[OF run dec, of k] that im by (simp add: ir_def)
  then show ?thesis by (metis in_set_conv_nth)
qed

lemma extractFile_record_of_image:
  assumes "extractFile D inputPath outdir compress w = (Inr images, w')" and "r \<in> set images"
  shows "\<exists>img. r = ir outdir img"
proof -
  obtain inp where "Open inputPath w = Inr inp"
    using assms(1) by (cases "Open inputPath w") (auto simp: extractFile_def)
  then have "extract_loop D outdir (records D compress inp) [] w = (Inr images, w')"
    using assms(1) by (auto simp: extractFile_def split: if_splits option.splits)
  then obtain imgs where "images = map (ir outdir) imgs"
    using extract_loop_decoded by blast
  then show ?thesis using assms(2) by auto
qed

section \<open>Properties of the buffered writer and of the index\<close>


lemma Flush_sticky: "w_err b \<noteq> None \<Longrightarrow> Flush b w = (b, w)"
  by (simp add: Flush_def)




lemma WriteString_unfold:
  "WriteString s b w =
     (if length s > bufsize - length (w_buf b) \<and> w_err b = None then
        WriteString (drop (bufsize - length (w_buf b)) s)
          (fst (Flush (b\<lparr>w_buf := w_buf b @ take (bufsize - length (w_buf b)) s\<rparr>) w))
          (snd (Flush (b\<lparr>w_buf := w_buf b @ take (bufsize - length (w_buf b)) s\<rparr>) w))
      else if w_err b \<noteq> None then (b, w)
      else (b\<lparr>w_buf := w_buf b @ s\<rparr>, w))"
  by (subst WriteString.simps) (simp add: Let_def)

lemma WriteString_sticky: "w_err b \<noteq> None \<Longrightarrow> WriteString s b w = (b, w)"
  by (subst WriteString_unfold) auto





lemma csv_Write_eq:
  "csv_Write record b w =
     (w_err (fst (WriteString (csv_line record) b w)),
      fst (WriteString (csv_line record) b w), snd (WriteString (csv_line record) b w))"
  by (simp add: csv_Write_def Let_def)

lemma writeLabels_sticky:
  "w_err b \<noteq> None \<Longrightarrow> fst (snd (writeLabels images b w)) = b \<and> snd (snd (writeLabels images b w)) = w"
  by (cases images) (auto simp: csv_Write_eq WriteString_sticky)




lemma header_line:
  "csv_line header = ''image_path,id,label_id,label_text,organization'' @ [CHR 0x0A]"
  by code_simp








section \<open>Properties of the pipeline\<close>

lemma run_append:
  "run D (xs @ ys) s = (case run D xs s of None \<Rightarrow> None | Some s' \<Rightarrow> run D ys s')"
  by (induction xs arbitrary: s) (auto split: option.splits)

lemma trace_append:
  "run D xs s = Some s' \<Longrightarrow> trace f D (xs @ ys) s = trace f D xs s @ trace f D ys s'"
  by (induction xs arbitrary: s) (auto split: option.splits)

lemma run_snoc:
  "run D (evs @ [ev]) s0 = Some s' \<longleftrightarrow> (\<exists>s. run D evs s0 = Some s \<and> step D ev s = Some s')"
  by (auto simp: run_append split: option.splits)

lemma trace_snoc:
  "run D evs s0 = Some s \<Longrightarrow> step D ev s = Some s' \<Longrightarrow>
     trace f D (evs @ [ev]) s0 = trace f D evs s0 @ f ev s"
  by (simp add: trace_append)

lemma run_induct [consumes 1, case_names init step]:
  assumes "run D evs s0 = Some s"
    and "P [] s0"
    and "\<And>evs s ev s'. run D evs s0 = Some s \<Longrightarrow> P evs s \<Longrightarrow> step D ev s = Some s' \<Longrightarrow>
           P (evs @ [ev]) s'"
  shows "P evs s"
  using assms(1)
proof (induction evs arbitrary: s rule: rev_induct)
  case Nil
  then show ?case using assms(2) by simp
next
  case (snoc ev evs)
  then obtain s1 where "run D evs s0 = Some s1" "step D ev s1 = Some s"
    using run_snoc by blast
  then show ?case using snoc.IH assms(3) by blast
qed

lemmas step_defs = enum_step_def handoff_def enum_cancel_def worker_step_def deliver_def
  worker_cancel_def closer_step_def main_step_def group_done_def

lemma step_config:
  assumes "step D ev s = Some s'"
  shows "cfg_inputPath s' = cfg_inputPath s \<and> cfg_outdir s' = cfg_outdir s \<and>
         cfg_compress s' = cfg_compress s \<and> length (workers s') = length (workers s)"
  using assms
  by (cases ev)
     (auto simp: step_defs
        split: enum_pc.splits list.splits worker_pc.splits closer_pc.splits main_pc.splits
          if_splits option.splits sum.splits prod.splits)

lemmas pc_splits = enum_pc.splits list.splits worker_pc.splits closer_pc.splits main_pc.splits
  if_splits option.splits sum.splits prod.splits

lemma all_done_nth:
  "all_done s \<Longrightarrow> i < length (workers s) \<Longrightarrow> workers s ! i = W_Done"
  by (simp add: all_done_def list_all_length)

lemma step_all_done:
  assumes "step D ev s = Some s'" "all_done s"
  shows "all_done s'"
proof (cases ev)
  case (WorkerStep i)
  then show ?thesis using assms all_done_nth[OF assms(2), of i]
    by (auto simp: step_defs split: pc_splits)
next
  case (Handoff i)
  then show ?thesis using assms by (auto simp: step_defs all_done_def split: pc_splits)
next
  case (Deliver i)
  then show ?thesis using assms all_done_nth[OF assms(2), of i]
    by (auto simp: step_defs split: pc_splits)
next
  case (WorkerCancel i)
  then show ?thesis using assms all_done_nth[OF assms(2), of i]
    by (auto simp: step_defs split: pc_splits)
qed (use assms in \<open>auto simp: step_defs all_done_def split: pc_splits\<close>)



lemma spawn_fields [simp]:
  "cfg_inputPath (spawn i out n c w) = i" "cfg_outdir (spawn i out n c w) = out"
  "cfg_compress (spawn i out n c w) = c" "disk (spawn i out n c w) = w"
  "enumerator (spawn i out n c w) = E_ReadDir" "workers (spawn i out n c w) = replicate (nat n) W_Recv"
  "paths_closed (spawn i out n c w) = False" "images_closed (spawn i out n c w) = False"
  "g_err (spawn i out n c w) = None" "ctx_done (spawn i out n c w) = False"
  "closer (spawn i out n c w) = C_Wait" "mainpc (spawn i out n c w) = M_Create"
  "csvw (spawn i out n c w) = NewWriter (Join [out, InfoFile])"
  by (simp_all add: spawn_def)


lemma run_config:
  assumes "run D evs s0 = Some s"
  shows "cfg_inputPath s = cfg_inputPath s0 \<and> cfg_outdir s = cfg_outdir s0 \<and>
         cfg_compress s = cfg_compress s0 \<and> length (workers s) = length (workers s0)"
  using assms
proof (induct rule: run_induct)
  case init
  then show ?case by simp
next
  case (step evs s ev s')
  then show ?case using step_config[OF step(3)] by simp
qed


lemma header_fits:
  "writeHeader (NewWriter p) w = (None, (NewWriter p)\<lparr>w_buf := csv_line header\<rparr>, w)"
proof -
  have "length (csv_line header) \<le> bufsize" by (simp add: header_line bufsize_def)
  then show ?thesis
    by (simp add: writeHeader_def csv_Write_eq WriteString_unfold NewWriter_def)
qed



lemma step_closer:
  assumes st: "step D ev s = Some s'"
    and c: "closer s \<noteq> C_Wait \<longrightarrow> all_done s" "images_closed s \<longrightarrow> closer s = C_Done"
  shows "(closer s' \<noteq> C_Wait \<longrightarrow> all_done s') \<and> (images_closed s' \<longrightarrow> closer s' = C_Done)"
proof (cases "all_done s")
  case True
  then have "all_done s'" using step_all_done[OF st] by simp
  then show ?thesis using st c by (cases ev) (auto simp: step_defs split: pc_splits)
next
  case False
  then show ?thesis using st c by (cases ev) (auto simp: step_defs split: pc_splits)
qed

lemma run_closer:
  assumes "run D evs (spawn i out n c w) = Some s"
  shows "(closer s \<noteq> C_Wait \<longrightarrow> all_done s) \<and> (images_closed s \<longrightarrow> closer s = C_Done)"
  using assms
proof (induct rule: run_induct)
  case init
  then show ?case by simp
next
  case (step evs s ev s')
  then show ?case using step_closer[OF step(3)] by blast
qed

lemma step_main_inv:
  assumes st: "step D ev s = Some s'"
    and c: "images_closed s \<longrightarrow> all_done s"
    and m: "main_inv cr s"
  shows "main_inv (cr @ created ev s) s'"
proof (cases ev)
  case EnumStep
  then show ?thesis using st m
    by (auto simp: step_defs main_inv_def all_done_def split: pc_splits)
next
  case (Handoff i)
  then show ?thesis using st m
    by (auto simp: step_defs main_inv_def all_done_def split: pc_splits)
next
  case EnumCancel
  then show ?thesis using st m
    by (auto simp: step_defs main_inv_def all_done_def split: pc_splits)
next
  case (WorkerStep i)
  have nd: "\<not> all_done s" using st WorkerStep all_done_nth[of s i]
    by (auto simp: step_defs split: pc_splits)
  have "mainpc s' = mainpc s" "csvw s' = csvw s" "cfg_outdir s' = cfg_outdir s"
    using st WorkerStep by (auto simp: step_defs split: pc_splits)
  then show ?thesis using m nd WorkerStep
    by (auto simp: main_inv_def split: main_pc.splits)
next
  case (Deliver i)
  have nd: "\<not> all_done s" using st Deliver all_done_nth[of s i]
    by (auto simp: step_defs split: pc_splits)
  have "mainpc s' = mainpc s" "mainpc s = M_Range"
    using st Deliver by (auto simp: step_defs split: pc_splits)
  then show ?thesis using m nd Deliver
    by (auto simp: main_inv_def split: main_pc.splits)
next
  case (WorkerCancel i)
  have nd: "\<not> all_done s" using st WorkerCancel all_done_nth[of s i]
    by (auto simp: step_defs split: pc_splits)
  have "mainpc s' = mainpc s" "csvw s' = csvw s" "cfg_outdir s' = cfg_outdir s"
    using st WorkerCancel by (auto simp: step_defs split: pc_splits)
  then show ?thesis using m nd WorkerCancel
    by (auto simp: main_inv_def split: main_pc.splits)
next
  case CloserStep
  have "mainpc s' = mainpc s" "csvw s' = csvw s" "cfg_outdir s' = cfg_outdir s"
    "g_err s' = g_err s" "all_done s' = all_done s"
    using st CloserStep by (auto simp: step_defs all_done_def split: pc_splits)
  then show ?thesis using m CloserStep
    by (auto simp: main_inv_def split: main_pc.splits option.splits)
next
  case MainStep
  show ?thesis
  proof (cases "mainpc s")
    case M_Create
    then show ?thesis using st m MainStep
      by (auto simp: step_defs main_inv_def split: prod.splits option.splits)
  next
    case M_Header
    then show ?thesis using st m MainStep header_fits[of "Join [cfg_outdir s, InfoFile]" "disk s"]
      by (auto simp: step_defs main_inv_def)
  next
    case M_Range
    then show ?thesis using st m c MainStep
      by (auto simp: step_defs main_inv_def all_done_def split: if_splits)
  next
    case M_Wait
    then show ?thesis using st m MainStep
      by (auto simp: step_defs main_inv_def all_done_def split: if_splits option.splits)
  next
    case M_Flush
    then show ?thesis using st m MainStep
      by (auto simp: step_defs main_inv_def all_done_def split: prod.splits)
  next
    case (M_Ret r)
    then show ?thesis using st MainStep by (simp add: step_defs)
  qed
qed

lemma run_main_inv:
  assumes "run D evs (spawn i out n c w) = Some s"
  shows "main_inv (trace created D evs (spawn i out n c w)) s"
  using assms
proof (induct rule: run_induct)
  case init
  then show ?case by (simp add: main_inv_def)
next
  case (step evs s ev s')
  have "images_closed s \<longrightarrow> all_done s" using run_closer[OF step(1)] by auto
  then show ?case
    using step_main_inv[OF step(3) _ step(2)] trace_snoc[OF step(1) step(3), of created]
    by simp
qed


lemma same_env_refl [simp]: "same_env w w"
  by (simp add: same_env_def)

lemma same_env_trans: "same_env w w1 \<Longrightarrow> same_env w1 w2 \<Longrightarrow> same_env w w2"
  by (simp add: same_env_def)

lemma same_env_nodes [simp]: "same_env w (w\<lparr>nodes := m\<rparr>)"
  by (simp add: same_env_def)

lemma mkdir_step_env: "same_env w (snd (mkdir_step p w))"
  by (simp add: mkdir_step_def split: option.splits node.splits)

lemma mkdir_chain_env: "same_env w (snd (mkdir_chain ps w))"
proof (induction ps arbitrary: w)
  case Nil
  then show ?case by simp
next
  case (Cons p ps)
  obtain r w1 where s: "mkdir_step p w = (r, w1)" by force
  have 1: "same_env w w1" using mkdir_step_env[of w p] s by simp
  show ?case
  proof (cases r)
    case None
    then show ?thesis using s 1 Cons.IH[of w1] same_env_trans by auto
  next
    case (Some e)
    then show ?thesis using s 1 by simp
  qed
qed

lemma MkdirAll_env: "same_env w (snd (MkdirAll p w))"
  by (simp add: MkdirAll_def mkdir_chain_env split: option.splits node.splits)

lemma Create_env: "same_env w (snd (Create p w))"
  by (simp add: Create_def split: option.splits node.splits)

lemma write_file_env: "same_env w (snd (write_file p bs w))"
  by (simp add: write_file_def split: option.splits node.splits)

lemma Save_env: "same_env w (snd (Save img f w))"
proof -
  obtain r w1 where c: "Create f w = (r, w1)" by force
  have 1: "same_env w w1" using Create_env[of w f] c by simp
  show ?thesis
  proof (cases r)
    case None
    then show ?thesis using c 1 write_file_env[of w1 f "Raw img"] same_env_trans
      by (auto simp: Save_def)
  next
    case (Some e)
    then show ?thesis using c 1 by (simp add: Save_def)
  qed
qed

lemma extract_loop_env: "same_env w (snd (extract_loop D outdir rs acc w))"
proof (induction rs arbitrary: acc w)
  case Nil
  then show ?case by simp
next
  case (Cons x rs)
  show ?case
  proof (cases x)
    case (NextError e)
    then show ?thesis by simp
  next
    case (NextRecord ex)
    show ?thesis
    proof (cases "NewImageFromExample D ex")
      case (Inl e)
      then show ?thesis using NextRecord by simp
    next
      case (Inr img)
      obtain r1 w1 where m: "MkdirAll (label_dir outdir img) w = (r1, w1)" by force
      obtain r2 w2 where s: "Save img (fname outdir img) w1 = (r2, w2)" by force
      have k1: "same_env w w1" using MkdirAll_env[of w "label_dir outdir img"] m by simp
      have k2: "same_env w w2"
        using Save_env[of w1 img "fname outdir img"] s k1 same_env_trans by auto
      show ?thesis
      proof (cases r1)
        case (Some e)
        then show ?thesis using NextRecord Inr m k1 by simp
      next
        case None
        show ?thesis
        proof (cases r2)
          case (Some e)
          then show ?thesis using NextRecord Inr m s None k2 by simp
        next
          case n2: None
          have "same_env w2 (snd (extract_loop D outdir rs (acc @ [ir outdir img]) w2))"
            using Cons.IH .
          then show ?thesis using NextRecord Inr m s None n2 k2 same_env_trans by auto
        qed
      qed
    qed
  qed
qed

lemma extractFile_env: "same_env w (snd (extractFile D p outdir c w))"
  by (auto simp: extractFile_def extract_loop_env split: sum.splits option.splits)

lemma Flush_env: "same_env w (snd (Flush b w))"
proof (cases "w_err b \<noteq> None \<or> w_buf b = []")
  case True
  then show ?thesis by (auto simp: Flush_def)
next
  case False
  obtain r w1 where wf: "write_file (w_out b) (w_buf b) w = (r, w1)" by force
  have "snd (Flush b w) = w1" using False wf by (cases r) (simp_all add: Flush_def)
  then show ?thesis using write_file_env[of w "w_out b" "w_buf b"] wf by simp
qed

lemma WriteString_env: "same_env w (snd (WriteString s b w))"
proof (induction s b w rule: WriteString.induct)
  case (1 s b w)
  show ?case
  proof (cases "length s > bufsize - length (w_buf b) \<and> w_err b = None")
    case True
    then show ?thesis
      using "1.IH"[OF True refl refl]
        Flush_env[of w "b\<lparr>w_buf := w_buf b @ take (bufsize - length (w_buf b)) s\<rparr>"]
        same_env_trans
      by (subst WriteString_unfold) auto
  next
    case False
    then show ?thesis by (subst WriteString_unfold) auto
  qed
qed

lemma writeLabels_env: "same_env w (snd (snd (writeLabels images b w)))"
proof (induction images arbitrary: b w)
  case Nil
  then show ?case by simp
next
  case (Cons i images)
  show ?case
    using WriteString_env[of w "csv_line (record_fields i)" b]
      Cons.IH[of "snd (WriteString (csv_line (record_fields i)) b w)"
        "fst (WriteString (csv_line (record_fields i)) b w)"] same_env_trans
    by (auto simp: csv_Write_eq case_prod_beta split: option.splits)
qed

lemma deliver_cases:
  assumes "deliver i s = Some s'"
  shows "\<exists>im. i < length (workers s) \<and> mainpc s = M_Range \<and> workers s ! i = W_Send im \<and>
           s' = s\<lparr>disk := snd (snd (writeLabels im (csvw s) (disk s))),
                  csvw := fst (snd (writeLabels im (csvw s) (disk s))),
                  workers := (workers s)[i := W_Recv]\<rparr>"
proof -
  have a: "i < length (workers s)" "mainpc s = M_Range"
    using assms by (auto simp: deliver_def split: if_splits)
  then obtain im where im: "workers s ! i = W_Send im"
    using assms by (cases "workers s ! i") (auto simp: deliver_def)
  obtain r b w' where w: "writeLabels im (csvw s) (disk s) = (r, b, w')" by (metis prod_cases3)
  have "s' = s\<lparr>disk := w', csvw := b, workers := (workers s)[i := W_Recv]\<rparr>"
    using assms a im w by (simp add: deliver_def)
  then show ?thesis using a im w by simp
qed

lemma step_env:
  assumes "step D ev s = Some s'"
  shows "same_env (disk s) (disk s')"
proof (cases ev)
  case (WorkerStep i)
  show ?thesis
  proof (cases "\<exists>p. i < length (workers s) \<and> workers s ! i = W_Run p")
    case True
    then obtain p where p: "i < length (workers s)" "workers s ! i = W_Run p" by blast
    have "disk s' = snd (extractFile D p (cfg_outdir s) (cfg_compress s) (disk s))"
      using assms WorkerStep p by (auto simp: step_defs split: pc_splits)
    then show ?thesis using extractFile_env by simp
  next
    case False
    then have "disk s' = disk s" using assms WorkerStep
      by (auto simp: step_defs split: pc_splits)
    then show ?thesis by simp
  qed
next
  case (Deliver i)
  then obtain im where "disk s' = snd (snd (writeLabels im (csvw s) (disk s)))"
    using assms deliver_cases[of i s s'] by auto
  then show ?thesis using writeLabels_env by simp
next
  case MainStep
  show ?thesis
  proof (cases "mainpc s")
    case M_Create
    then have "disk s' = snd (Create (Join [cfg_outdir s, InfoFile]) (disk s))"
      using assms MainStep by (auto simp: step_defs split: pc_splits)
    then show ?thesis using Create_env by simp
  next
    case M_Header
    then have "disk s' = snd (WriteString (csv_line header) (csvw s) (disk s))"
      using assms MainStep
      by (auto simp: step_defs writeHeader_def csv_Write_eq split: pc_splits)
    then show ?thesis using WriteString_env by simp
  next
    case M_Flush
    then have "disk s' = snd (Flush (csvw s) (disk s))"
      using assms MainStep by (auto simp: step_defs split: pc_splits)
    then show ?thesis using Flush_env by simp
  qed (use assms MainStep in \<open>auto simp: step_defs split: pc_splits\<close>)
qed (use assms in \<open>auto simp: step_defs split: pc_splits\<close>)

lemma run_env:
  assumes "run D evs s0 = Some s"
  shows "same_env (disk s0) (disk s)"
  using assms
proof (induct rule: run_induct)
  case init
  then show ?case by simp
next
  case (step evs s ev s')
  then show ?case using step_env[OF step(3)] same_env_trans by blast
qed

lemma shard_paths_Nil [simp]: "shard_paths p [] = []"
  by (simp add: shard_paths_def)

lemma shard_paths_Cons:
  "shard_paths p (f # fs) =
     (if IsDir f then shard_paths p fs else Join [p, Name f] # shard_paths p fs)"
  by (simp add: shard_paths_def)

lemma step_enum_inv:
  assumes st: "step D ev s = Some s'"
    and inv: "enum_inv (shard_paths (cfg_inputPath s) (listing (disk s) (cfg_inputPath s))) h s"
  shows "enum_inv (shard_paths (cfg_inputPath s) (listing (disk s) (cfg_inputPath s)))
           (h @ handed ev s) s'"
proof (cases ev)
  case EnumStep
  then show ?thesis using st inv
    by (auto simp: step_defs enum_inv_def ReadDir_def shard_paths_Cons split: pc_splits)
next
  case (Handoff i)
  then show ?thesis using st inv
    by (auto simp: step_defs enum_inv_def shard_paths_Cons split: pc_splits)
next
  case EnumCancel
  then show ?thesis using st inv
    by (auto simp: step_defs enum_inv_def shard_paths_Cons split: pc_splits)
next
  case (WorkerStep i)
  have "enumerator s' = enumerator s" "cfg_inputPath s' = cfg_inputPath s"
    "g_err s \<noteq> None \<longrightarrow> g_err s' \<noteq> None"
    using st WorkerStep by (auto simp: step_defs split: pc_splits)
  then show ?thesis using inv WorkerStep
    by (auto simp: enum_inv_def split: enum_pc.splits option.splits)
next
  case (Deliver i)
  have "enumerator s' = enumerator s" "cfg_inputPath s' = cfg_inputPath s" "g_err s' = g_err s"
    using st Deliver deliver_cases[of i s s'] by auto
  then show ?thesis using inv Deliver
    by (auto simp: enum_inv_def split: enum_pc.splits option.splits)
next
  case (WorkerCancel i)
  have "enumerator s' = enumerator s" "cfg_inputPath s' = cfg_inputPath s" "g_err s' = g_err s"
    using st WorkerCancel by (auto simp: step_defs split: pc_splits)
  then show ?thesis using inv WorkerCancel
    by (auto simp: enum_inv_def split: enum_pc.splits option.splits)
next
  case CloserStep
  have "enumerator s' = enumerator s" "cfg_inputPath s' = cfg_inputPath s" "g_err s' = g_err s"
    using st CloserStep by (auto simp: step_defs split: pc_splits)
  then show ?thesis using inv CloserStep
    by (auto simp: enum_inv_def split: enum_pc.splits option.splits)
next
  case MainStep
  have "enumerator s' = enumerator s" "cfg_inputPath s' = cfg_inputPath s" "g_err s' = g_err s"
    using st MainStep by (auto simp: step_defs split: pc_splits)
  then show ?thesis using inv MainStep
    by (auto simp: enum_inv_def split: enum_pc.splits option.splits)
qed

lemma run_enum_inv:
  assumes "run D evs (spawn i out n c w) = Some s"
  shows "enum_inv (shard_paths i (listing w i)) (trace handed D evs (spawn i out n c w)) s"
  using assms
proof (induct rule: run_induct)
  case init
  then show ?case by (simp add: enum_inv_def)
next
  case (step evs s ev s')
  have c: "cfg_inputPath s = i" using run_config[OF step(1)] by simp
  have "same_env w (disk s)" using run_env[OF step(1)] by simp
  then have l: "listing (disk s) = listing w" by (simp add: same_env_def)
  show ?case
    using step_enum_inv[OF step(3), of "trace handed D evs (spawn i out n c w)"] step(2)
      trace_snoc[OF step(1) step(3), of handed] c l
    by simp
qed






text \<open>What the enumerator sends is what the worker receives and runs \<open>extractFile\<close> on.\<close>

lemma handoff_link:
  assumes "step D (Handoff i) s = Some s'"
  shows "\<exists>p. handed (Handoff i) s = [p] \<and> i < length (workers s) \<and> workers s ! i = W_Recv \<and>
             workers s' ! i = W_Run p"
  using assms by (auto simp: handoff_def split: pc_splits)

lemma worker_run_link:
  assumes "step D (WorkerStep i) s = Some s'" and "workers s ! i = W_Run p"
  shows "disk s' = snd (extractFile D p (cfg_outdir s) (cfg_compress s) (disk s)) \<and>
         workers s' ! i =
           (case fst (extractFile D p (cfg_outdir s) (cfg_compress s) (disk s)) of
              Inl e \<Rightarrow> W_Ret (Some e) | Inr im \<Rightarrow> W_Send im)"
  using assms by (auto simp: worker_step_def split: pc_splits)
lemma rank_update:
  assumes "i < length ws"
  shows "sum_list (map worker_rank (ws[i := x])) + worker_rank (ws ! i) =
         sum_list (map worker_rank ws) + worker_rank x"
proof -
  have "sum_list ((map worker_rank ws)[i := worker_rank x]) =
      sum_list (map worker_rank ws) + worker_rank x - map worker_rank ws ! i"
    using assms by (simp add: sum_list_update)
  moreover have "map worker_rank ws ! i \<le> sum_list (map worker_rank ws)"
    using assms by (metis elem_le_sum_list length_map)
  ultimately show ?thesis using assms by (simp add: map_update)
qed

lemma step_work_left:
  assumes st: "step D ev s = Some s'"
  shows "work_left s' < work_left s"
proof -
  have "same_env (disk s) (disk s')" using step_env[OF st] .
  then have l: "listing (disk s') = listing (disk s)" by (simp add: same_env_def)
  have c: "cfg_inputPath s' = cfg_inputPath s" using step_config[OF st] by simp
  let ?L = "length (listing (disk s) (cfg_inputPath s))"
  have main: "enum_rank ?L (enumerator s') + sum_list (map worker_rank (workers s')) +
      closer_rank (closer s') + main_rank (mainpc s') <
      enum_rank ?L (enumerator s) + sum_list (map worker_rank (workers s)) +
      closer_rank (closer s) + main_rank (mainpc s)"
  proof (cases ev)
    case EnumStep
    then show ?thesis using st
      by (auto simp: step_defs ReadDir_def split: pc_splits)
  next
    case (Handoff i)
    then obtain f fs where e: "enumerator s = E_Loop (f # fs)" "i < length (workers s)"
      "workers s ! i = W_Recv"
      "s' = s\<lparr>enumerator := E_Loop fs,
              workers := (workers s)[i := W_Run (Join [cfg_inputPath s, Name f])]\<rparr>"
      using st by (auto simp: step_defs split: pc_splits)
    show ?thesis
      using e rank_update[OF e(2), of "W_Run (Join [cfg_inputPath s, Name f])"] by simp
  next
    case EnumCancel
    then show ?thesis using st by (auto simp: step_defs split: pc_splits)
  next
    case (WorkerStep i)
    then obtain x where e: "i < length (workers s)" "workers s' = (workers s)[i := x]"
      "worker_rank x < worker_rank (workers s ! i)" "enumerator s' = enumerator s"
      "closer s' = closer s" "mainpc s' = mainpc s"
      using st by (auto simp: step_defs split: pc_splits)
    show ?thesis using e rank_update[OF e(1), of x] by simp
  next
    case (Deliver i)
    then obtain im where e: "i < length (workers s)" "workers s ! i = W_Send im"
      "workers s' = (workers s)[i := W_Recv]" "enumerator s' = enumerator s"
      "closer s' = closer s" "mainpc s' = mainpc s"
      using st deliver_cases[of i s s'] by auto
    show ?thesis using e rank_update[OF e(1), of W_Recv] by simp
  next
    case (WorkerCancel i)
    then obtain im where e: "i < length (workers s)" "workers s ! i = W_Send im"
      "workers s' = (workers s)[i := W_Ret (Some Canceled)]" "enumerator s' = enumerator s"
      "closer s' = closer s" "mainpc s' = mainpc s"
      using st by (auto simp: step_defs split: pc_splits)
    show ?thesis using e rank_update[OF e(1), of "W_Ret (Some Canceled)"] by simp
  next
    case CloserStep
    then show ?thesis using st by (auto simp: step_defs split: pc_splits)
  next
    case MainStep
    then show ?thesis using st by (auto simp: step_defs split: pc_splits)
  qed
  show ?thesis using main l c by (simp add: work_left_def)
qed

lemma run_bound:
  assumes "run D evs s0 = Some s"
  shows "length evs + work_left s \<le> work_left s0"
  using assms
proof (induct rule: run_induct)
  case init
  then show ?case by simp
next
  case (step evs s ev s')
  then show ?case using step_work_left[OF step(3)] by simp
qed

lemma idle_main_cong:
  "mainpc s' = mainpc s \<Longrightarrow> disk s' = disk s \<Longrightarrow> csvw s' = csvw s \<Longrightarrow>
     cfg_outdir s' = cfg_outdir s \<Longrightarrow> idle_main w w3 s' = idle_main w w3 s"
  by (auto simp: idle_main_def split: main_pc.splits)

lemma idle_group_cong:
  "g_err s' = g_err s \<Longrightarrow> enumerator s' = enumerator s \<Longrightarrow> workers s' = workers s \<Longrightarrow>
     closer s' = closer s \<Longrightarrow> paths_closed s' = paths_closed s \<Longrightarrow>
     images_closed s' = images_closed s \<Longrightarrow> idle_group s' = idle_group s"
  by (auto simp: idle_group_def split: enum_pc.splits)

lemma list_all_update:
  "list_all P xs \<Longrightarrow> P x \<Longrightarrow> list_all P (xs[i := x])"
  by (induction xs arbitrary: i) (auto split: nat.splits)

lemma header_nonempty: "csv_line header \<noteq> []"
  by (simp add: csv_line_def)

lemma flush_header:
  assumes cr: "Create p w = (None, w3)" and wf: "fault w OpWrite p = None"
  shows "\<exists>b w'. Flush ((NewWriter p)\<lparr>w_buf := csv_line header\<rparr>) w3 = (b, w') \<and> w_err b = None \<and>
           file_at w' p = Some (csv_line header)"
proof -
  have n: "nodes w3 p = Some (File [])" "fault w3 = fault w"
    using Create_ok[OF cr] by simp_all
  have "write_file p (csv_line header) w3 =
      (None, w3\<lparr>nodes := (nodes w3)(p \<mapsto> File (csv_line header))\<rparr>)"
    using n wf by (simp add: write_file_def)
  then show ?thesis using header_nonempty
    by (simp add: Flush_def NewWriter_def file_at_def)
qed

lemma step_idle_group:
  assumes st: "step D ev s = Some s'"
    and inv: "idle_group s"
    and dirs: "list_all IsDir (listing (disk s) (cfg_inputPath s))"
    and rd: "fault (disk s) OpReadDir (cfg_inputPath s) = None"
  shows "idle_group s' \<and> handed ev s = [] \<and> received ev s = [] \<and>
         (ev \<noteq> MainStep \<longrightarrow> mainpc s' = mainpc s \<and> disk s' = disk s \<and> csvw s' = csvw s)"
proof (cases ev)
  case EnumStep
  then show ?thesis using st inv dirs rd
    by (auto simp: step_defs idle_group_def ReadDir_def split: pc_splits)
next
  case (Handoff i)
  then show ?thesis using st inv by (auto simp: step_defs idle_group_def split: pc_splits)
next
  case EnumCancel
  then show ?thesis using st inv by (auto simp: step_defs idle_group_def split: pc_splits)
next
  case (WorkerStep i)
  have i: "i < length (workers s)" using st WorkerStep by (auto simp: step_defs split: if_splits)
  have pc: "workers s ! i = W_Recv \<or> workers s ! i = W_Ret None \<or> workers s ! i = W_Done"
    using inv i by (simp add: idle_group_def list_all_length)
  then consider "workers s ! i = W_Recv" | "workers s ! i = W_Ret None" | "workers s ! i = W_Done"
    by blast
  then show ?thesis
  proof cases
    case 1
    then have "s' = s\<lparr>workers := (workers s)[i := W_Ret None]\<rparr>"
      using st WorkerStep i by (auto simp: step_defs split: if_splits)
    then show ?thesis using inv WorkerStep 1
      by (auto simp: idle_group_def list_all_update split: enum_pc.splits)
  next
    case 2
    then have "s' = s\<lparr>workers := (workers s)[i := W_Done]\<rparr>"
      using st WorkerStep i by (auto simp: step_defs split: if_splits)
    then show ?thesis using inv WorkerStep 2
      by (auto simp: idle_group_def list_all_update split: enum_pc.splits)
  next
    case 3
    then show ?thesis using st WorkerStep i by (auto simp: step_defs)
  qed
next
  case (Deliver i)
  obtain im where "i < length (workers s)" "workers s ! i = W_Send im"
    using st Deliver deliver_cases[of i s s'] by auto
  then show ?thesis using inv by (auto simp: idle_group_def list_all_length)
next
  case (WorkerCancel i)
  then obtain im where "i < length (workers s)" "workers s ! i = W_Send im"
    using st by (auto simp: step_defs split: pc_splits)
  then show ?thesis using inv by (auto simp: idle_group_def list_all_length)
next
  case CloserStep
  then show ?thesis using st inv by (auto simp: step_defs idle_group_def split: pc_splits)
next
  case MainStep
  have "g_err s' = g_err s" "enumerator s' = enumerator s" "workers s' = workers s"
    "closer s' = closer s" "paths_closed s' = paths_closed s" "images_closed s' = images_closed s"
    using st MainStep by (auto simp: step_defs split: pc_splits)
  then show ?thesis using inv idle_group_cong[of s' s] MainStep by simp
qed

lemma step_idle_main:
  assumes st: "step D MainStep s = Some s'"
    and inv: "idle_main w w3 s"
    and ge: "g_err s = None"
    and cr: "Create (Join [cfg_outdir s, InfoFile]) w = (None, w3)"
    and wf: "fault w OpWrite (Join [cfg_outdir s, InfoFile]) = None"
  shows "idle_main w w3 s'"
proof (cases "mainpc s")
  case M_Create
  then show ?thesis using st inv cr
    by (auto simp: step_defs idle_main_def)
next
  case M_Header
  then show ?thesis using st inv header_fits[of "Join [cfg_outdir s, InfoFile]" w3]
    by (auto simp: step_defs idle_main_def)
next
  case M_Range
  then show ?thesis using st inv
    by (auto simp: step_defs idle_main_def split: if_splits)
next
  case M_Wait
  then show ?thesis using st inv ge
    by (auto simp: step_defs idle_main_def split: if_splits option.splits)
next
  case M_Flush
  obtain b w' where f: "Flush ((NewWriter (Join [cfg_outdir s, InfoFile]))\<lparr>w_buf := csv_line header\<rparr>) w3
      = (b, w')" "w_err b = None"
    "file_at w' (Join [cfg_outdir s, InfoFile]) = Some (csv_line header)"
    using flush_header[OF cr wf] by blast
  then show ?thesis using M_Flush st inv
    by (auto simp: step_defs idle_main_def)
next
  case (M_Ret r)
  then show ?thesis using st by (simp add: step_defs)
qed

lemma step_idle_inv:
  assumes st: "step D ev s = Some s'"
    and inv: "idle_group s \<and> idle_main w w3 s"
    and dirs: "list_all IsDir (listing w (cfg_inputPath s))"
    and rd: "fault w OpReadDir (cfg_inputPath s) = None"
    and cr: "Create (Join [cfg_outdir s, InfoFile]) w = (None, w3)"
    and wf: "fault w OpWrite (Join [cfg_outdir s, InfoFile]) = None"
    and env: "same_env w (disk s)"
  shows "(idle_group s' \<and> idle_main w w3 s') \<and> handed ev s = [] \<and> received ev s = []"
proof -
  have l: "listing (disk s) = listing w" "fault (disk s) = fault w"
    using env by (simp_all add: same_env_def)
  have g: "idle_group s' \<and> handed ev s = [] \<and> received ev s = [] \<and>
         (ev \<noteq> MainStep \<longrightarrow> mainpc s' = mainpc s \<and> disk s' = disk s \<and> csvw s' = csvw s)"
    using step_idle_group[OF st] inv dirs rd l by simp
  have c: "cfg_outdir s' = cfg_outdir s" using step_config[OF st] by simp
  have "idle_main w w3 s'"
  proof (cases "ev = MainStep")
    case True
    then show ?thesis using step_idle_main[OF _ _ _ cr wf] st inv by (simp add: idle_group_def)
  next
    case False
    then show ?thesis using g c inv idle_main_cong[of s' s w w3] by simp
  qed
  then show ?thesis using g by simp
qed

lemma run_idle_inv:
  assumes r: "run D evs (spawn i out n c w) = Some s"
    and dirs: "list_all IsDir (listing w i)"
    and rd: "fault w OpReadDir i = None"
    and cr: "Create (Join [out, InfoFile]) w = (None, w3)"
    and wf: "fault w OpWrite (Join [out, InfoFile]) = None"
  shows "(idle_group s \<and> idle_main w w3 s) \<and> trace handed D evs (spawn i out n c w) = [] \<and>
         trace received D evs (spawn i out n c w) = []"
  using r
proof (induct rule: run_induct)
  case init
  then show ?case by (simp add: idle_group_def idle_main_def list_all_iff)
next
  case (step evs s ev s')
  have c: "cfg_inputPath s = i" "cfg_outdir s = out" using run_config[OF step(1)] by simp_all
  have e: "same_env w (disk s)" using run_env[OF step(1)] by simp
  show ?case
    using step_idle_inv[OF step(3), of w w3] step(2) dirs rd cr wf c e
      trace_snoc[OF step(1) step(3), of handed] trace_snoc[OF step(1) step(3), of received]
    by simp
qed

lemma idle_progress:
  assumes inv: "idle_group s"
    and cl: "closer s \<noteq> C_Wait \<longrightarrow> all_done s"
    and mi: "main_inv cr s"
    and nr: "\<forall>r. mainpc s \<noteq> M_Ret r"
  shows "\<exists>ev. step D ev s \<noteq> None"
proof (cases "mainpc s")
  case M_Create
  then have "step D MainStep s \<noteq> None" by (simp add: main_step_def split: prod.splits option.splits)
  then show ?thesis by blast
next
  case M_Header
  then have "step D MainStep s \<noteq> None"
    by (cases "writeHeader (csvw s) (disk s)") (simp add: main_step_def split: option.splits)
  then show ?thesis by blast
next
  case M_Wait
  then have "all_done s" using mi by (simp add: main_inv_def)
  then have "step D MainStep s \<noteq> None" using M_Wait by (simp add: main_step_def split: option.splits)
  then show ?thesis by blast
next
  case M_Flush
  then have "step D MainStep s \<noteq> None" by (simp add: main_step_def split: prod.splits)
  then show ?thesis by blast
next
  case (M_Ret r)
  then show ?thesis using nr by simp
next
  case M_Range
  show ?thesis
  proof (cases "images_closed s")
    case True
    then have "step D MainStep s \<noteq> None" using M_Range by (simp add: main_step_def)
    then show ?thesis by blast
  next
    case False
    then have nd: "closer s \<noteq> C_Done" using inv by (auto simp: idle_group_def)
    show ?thesis
    proof (cases "closer s = C_Close \<or> all_done s")
      case True
      then have "step D CloserStep s \<noteq> None" using nd
        by (cases "closer s") (auto simp: closer_step_def)
      then show ?thesis by blast
    next
      case False
      then have nad: "\<not> all_done s" by simp
      show ?thesis
      proof (cases "enumerator s = E_Done")
        case False
        then have "step D EnumStep s \<noteq> None" using inv
          by (auto simp: idle_group_def enum_step_def ReadDir_def
              split: enum_pc.splits list.splits sum.splits option.splits)
        then show ?thesis by blast
      next
        case True
        then have pc: "paths_closed s" using inv by (simp add: idle_group_def)
        obtain i where i: "i < length (workers s)" "workers s ! i \<noteq> W_Done"
          using nad True by (auto simp: all_done_def list_all_length)
        have "workers s ! i = W_Recv \<or> workers s ! i = W_Ret None"
          using inv i by (auto simp: idle_group_def list_all_length)
        then have "step D (WorkerStep i) s \<noteq> None" using i pc
          by (auto simp: worker_step_def)
        then show ?thesis by blast
      qed
    qed
  qed
qed

lemma work_left_spawn:
  "work_left (spawn i out n c w) = 3 * length (listing w i) + 2 * nat n + 10"
proof -
  have "sum_list (map worker_rank (replicate k W_Recv)) = 2 * k" for k
    by (induction k) simp_all
  then show ?thesis by (simp add: work_left_def)
qed





















section \<open>Claims about extractFile\<close>

text \<open>
  C1.  Whenever \<open>extractFile\<close> returns a record list, the shard could be opened and its
  reader delivered records \<open>imgs\<close> up to the end of the stream, all of which decoded; the
  list holds one index record for each of them, in that order, with the path
  \<^verbatim>\<open><outdir>/<labelText>/<id>.jpg\<close> and the fields of the entity.  At the \<open>k\<close>-th iteration the
  list held the first \<open>k\<close> records only; the label directory was made by a \<open>MkdirAll\<close>
  that succeeds again without changing anything, then the payload was saved under the
  path of the record, and the file system the loop went on with is the one where the
  file holds the payload; the file still exists when \<open>extractFile\<close> returns.
\<close>

theorem extractFile_records:
  assumes "extractFile D inputPath outdir compress w = (Inr images, w')"
  shows "\<exists>inp imgs.
     Open inputPath w = Inr inp \<and>
     map (NewImageFromExample D) (stream_records (records D compress inp)) = map Inr imgs \<and>
     length images = length imgs \<and>
     w' = world_after D outdir (records D compress inp) (length imgs) w \<and>
     (\<forall>k<length imgs.
        Path (images ! k) =
          Join [outdir, Image.LabelText (imgs ! k), Itoa (Image.ID (imgs ! k)) @ ''.jpg''] \<and>
        ID (images ! k) = Image.ID (imgs ! k) \<and>
        LabelID (images ! k) = Image.LabelID (imgs ! k) \<and>
        LabelText (images ! k) = Image.LabelText (imgs ! k) \<and>
        Organization (images ! k) = Image.Organization (imgs ! k) \<and>
        fst (extract_loop D outdir (take k (records D compress inp)) [] w) = Inr (take k images) \<and>
        (\<exists>w1. MkdirAll (Join [outdir, Image.LabelText (imgs ! k)])
                 (world_after D outdir (records D compress inp) k w) = (None, w1) \<and>
              MkdirAll (Join [outdir, Image.LabelText (imgs ! k)]) w1 = (None, w1) \<and>
              Save (imgs ! k) (Path (images ! k)) w1 =
                (None, world_after D outdir (records D compress inp) (Suc k) w)) \<and>
        file_at (world_after D outdir (records D compress inp) (Suc k) w) (Path (images ! k)) =
          Some (Raw (imgs ! k)) \<and>
        file_at w' (Path (images ! k)) \<noteq> None)"
proof -
  obtain inp where inp: "Open inputPath w = Inr inp"
    using assms by (cases "Open inputPath w") (auto simp: extractFile_def)
  let ?rs = "records D compress inp"
  have run: "extract_loop D outdir ?rs [] w = (Inr images, w')"
    using assms inp by (auto simp: extractFile_def split: if_splits option.splits)
  obtain imgs where dec: "map (NewImageFromExample D) (stream_records ?rs) = map Inr imgs"
    and im: "images = map (ir outdir) imgs"
    using extract_loop_decoded[OF run] by blast
  have len: "length (stream_records ?rs) = length imgs" using dec by (metis length_map)
  have fin: "w' = world_after D outdir ?rs (length imgs) w"
    using extract_loop_final[OF run] len by simp
  have each: "Path (images ! k) =
          Join [outdir, Image.LabelText (imgs ! k), Itoa (Image.ID (imgs ! k)) @ ''.jpg''] \<and>
        ID (images ! k) = Image.ID (imgs ! k) \<and>
        LabelID (images ! k) = Image.LabelID (imgs ! k) \<and>
        LabelText (images ! k) = Image.LabelText (imgs ! k) \<and>
        Organization (images ! k) = Image.Organization (imgs ! k) \<and>
        fst (extract_loop D outdir (take k ?rs) [] w) = Inr (take k images) \<and>
        (\<exists>w1. MkdirAll (Join [outdir, Image.LabelText (imgs ! k)])
                 (world_after D outdir ?rs k w) = (None, w1) \<and>
              MkdirAll (Join [outdir, Image.LabelText (imgs ! k)]) w1 = (None, w1) \<and>
              Save (imgs ! k) (Path (images ! k)) w1 =
                (None, world_after D outdir ?rs (Suc k) w)) \<and>
        file_at (world_after D outdir ?rs (Suc k) w) (Path (images ! k)) =
          Some (Raw (imgs ! k)) \<and>
        file_at w' (Path (images ! k)) \<noteq> None" if k: "k < length imgs" for k
  proof -
    have p: "Path (images ! k) = fname outdir (imgs ! k)" using im k by (simp add: ir_def)
    have fields: "ID (images ! k) = Image.ID (imgs ! k)"
      "LabelID (images ! k) = Image.LabelID (imgs ! k)"
      "LabelText (images ! k) = Image.LabelText (imgs ! k)"
      "Organization (images ! k) = Image.Organization (imgs ! k)"
      using im k by (simp_all add: ir_def)
    have pre: "fst (extract_loop D outdir (take k ?rs) [] w) = Inr (take k images)"
      using extract_loop_prefix(1)[OF run, of k] k len by simp
    obtain w1 where m: "MkdirAll (label_dir outdir (imgs ! k)) (world_after D outdir ?rs k w) = (None, w1)"
      and s: "Save (imgs ! k) (fname outdir (imgs ! k)) w1 = (None, world_after D outdir ?rs (Suc k) w)"
      using extract_loop_iteration(1)[OF run dec k] by blast
    have ex: "file_at w' (fname outdir (imgs ! k)) \<noteq> None"
      using extract_loop_iteration(2)[OF run dec k] .
    have saved: "file_at (world_after D outdir ?rs (Suc k) w) (fname outdir (imgs ! k)) =
        Some (Raw (imgs ! k))"
      using Save_ok[OF s] by simp
    show ?thesis
      using p fields pre m MkdirAll_twice[OF m] s saved ex
      by (simp add: label_dir_def fname_def)
  qed
  then have all: "\<forall>k<length imgs.
        Path (images ! k) =
          Join [outdir, Image.LabelText (imgs ! k), Itoa (Image.ID (imgs ! k)) @ ''.jpg''] \<and>
        ID (images ! k) = Image.ID (imgs ! k) \<and>
        LabelID (images ! k) = Image.LabelID (imgs ! k) \<and>
        LabelText (images ! k) = Image.LabelText (imgs ! k) \<and>
        Organization (images ! k) = Image.Organization (imgs ! k) \<and>
        fst (extract_loop D outdir (take k ?rs) [] w) = Inr (take k images) \<and>
        (\<exists>w1. MkdirAll (Join [outdir, Image.LabelText (imgs ! k)])
                 (world_after D outdir ?rs k w) = (None, w1) \<and>
              MkdirAll (Join [outdir, Image.LabelText (imgs ! k)]) w1 = (None, w1) \<and>
              Save (imgs ! k) (Path (images ! k)) w1 =
                (None, world_after D outdir ?rs (Suc k) w)) \<and>
        file_at (world_after D outdir ?rs (Suc k) w) (Path (images ! k)) =
          Some (Raw (imgs ! k)) \<and>
        file_at w' (Path (images ! k)) \<noteq> None"
    by blast
  have l: "length images = length imgs" using im by simp
  show ?thesis
    using inp dec l fin all
    by - (rule exI[of _ inp], rule exI[of _ imgs], intro conjI; assumption)
qed

theorem extractFile_records_witness:
  "extractFile demo_decoder ''/in/shard'' ''/out'' False (demo_world ''abc'') =
     (Inr [cat1, dog2, cat3],
      snd (extractFile demo_decoder ''/in/shard'' ''/out'' False (demo_world ''abc''))) \<and>
   list_all
     (\<lambda>r. file_at (snd (extractFile demo_decoder ''/in/shard'' ''/out'' False (demo_world ''abc'')))
            (Path r) \<noteq> None)
     [cat1, dog2, cat3]"
proof -
  let ?w' = "snd (extractFile demo_decoder ''/in/shard'' ''/out'' False (demo_world ''abc''))"
  have "fst (extractFile demo_decoder ''/in/shard'' ''/out'' False (demo_world ''abc'')) =
      Inr [cat1, dog2, cat3]"
    by code_simp
  then have h: "extractFile demo_decoder ''/in/shard'' ''/out'' False (demo_world ''abc'') =
      (Inr [cat1, dog2, cat3], ?w')"
    by (simp add: prod_eq_iff)
  have "\<forall>k<3. file_at ?w' (Path ([cat1, dog2, cat3] ! k)) \<noteq> None"
    using extractFile_records[OF h]
    by (elim exE conjE) (metis length_Cons list.size(3) numeral_3_eq_3)
  then have "file_at ?w' (Path ([cat1, dog2, cat3] ! 0)) \<noteq> None \<and>
    file_at ?w' (Path ([cat1, dog2, cat3] ! 1)) \<noteq> None \<and>
    file_at ?w' (Path ([cat1, dog2, cat3] ! 2)) \<noteq> None"
    by (metis lessI less_numeral_extra(1) numeral_2_eq_2 numeral_3_eq_3 less_Suc_eq zero_less_Suc One_nat_def)
  then show ?thesis using h by simp
qed

text \<open>
  C2.  Let the reader of an opened shard deliver the records \<open>exs\<close>, which all go through
  the loop, and then a result \<open>bad\<close> that fails: \<open>Next\<close> returns an error other than the end
  of the stream, or the record does not decode, or its label directory cannot be made,
  or its payload cannot be saved.  Then \<open>extractFile\<close> returns that error and no record
  list; the files of the records built so far are still there and the index file is as
  it was; in single-file mode \<open>Extract\<close> returns the error at once, and a worker of the
  directory mode is left returning the error, with nothing to send.
\<close>

theorem extractFile_failure:
  assumes op: "Open inputPath w = Inr inp"
    and zl: "compress \<longrightarrow> zlib_NewReader D inp = None"
    and rs: "records D compress inp = map NextRecord exs @ bad # rest"
    and ok: "extract_loop D outdir (map NextRecord exs) [] w = (Inr recs, wn)"
    and bad: "(bad = NextError e \<and> e \<noteq> EOF \<and> w' = wn) \<or>
       (\<exists>ex. bad = NextRecord ex \<and> NewImageFromExample D ex = Inl e \<and> w' = wn) \<or>
       (\<exists>ex img. bad = NextRecord ex \<and> NewImageFromExample D ex = Inr img \<and>
          MkdirAll (Join [outdir, Image.LabelText img]) wn = (Some e, w')) \<or>
       (\<exists>ex img w1. bad = NextRecord ex \<and> NewImageFromExample D ex = Inr img \<and>
          MkdirAll (Join [outdir, Image.LabelText img]) wn = (None, w1) \<and>
          Save img (Join [outdir, Image.LabelText img, Itoa (Image.ID img) @ ''.jpg'']) w1 =
            (Some e, w'))"
  shows "extractFile D inputPath outdir compress w = (Inl e, w') \<and>
     length recs = length exs \<and>
     (\<forall>r\<in>set recs. file_at w' (Path r) \<noteq> None) \<and>
     file_at w' (Join [outdir, InfoFile]) = file_at w (Join [outdir, InfoFile]) \<and>
     (outPath \<noteq> [] \<and> Abs outPath w0 = Inr outdir \<and> MkdirAll outdir w0 = (None, w) \<and>
        Stat inputPath w = Inr False \<longrightarrow>
        Extract D inputPath outPath threads compress w0 = Returned (Some e) w') \<and>
     (i < length (workers s) \<and> workers s ! i = W_Run inputPath \<and> disk s = w \<and>
        cfg_outdir s = outdir \<and> cfg_compress s = compress \<longrightarrow>
        worker_step D i s =
          Some (s\<lparr>disk := w', workers := (workers s)[i := W_Ret (Some e)]\<rparr>))"
proof -
  have loop: "extract_loop D outdir (records D compress inp) [] w =
      extract_loop D outdir (bad # rest) recs wn"
    unfolding rs extract_loop_append ok by simp
  have step: "extract_loop D outdir (bad # rest) recs wn = (Inl e, w')"
    using bad by (auto simp: label_dir_def fname_def)
  have ef: "extractFile D inputPath outdir compress w = (Inl e, w')"
    using op zl loop step by (auto simp: extractFile_def)
  obtain imgs where dec: "map (NewImageFromExample D) (stream_records (map NextRecord exs)) = map Inr imgs"
    and im: "recs = map (ir outdir) imgs"
    using extract_loop_decoded[OF ok] by blast
  have len: "length recs = length exs" using dec im by (metis length_map stream_records_map)
  have saved: "\<forall>r\<in>set recs. file_at wn (Path r) \<noteq> None"
    using extract_loop_all_saved[OF ok] .
  have keep: "file_at w' q \<noteq> None" if q: "file_at wn q \<noteq> None" for q
    using bad
  proof (elim disjE exE conjE, goal_cases)
    case 1
    then show ?case using q by simp
  next
    case (2 ex)
    then show ?case using q by simp
  next
    case (3 ex img)
    then show ?case using MkdirAll_file_at[OF 3(3), of q] q by simp
  next
    case (4 ex img w1)
    have "file_at w1 q \<noteq> None" using MkdirAll_file_at[OF 4(3), of q] q by simp
    then show ?case using Save_keeps[OF 4(4)] by simp
  qed
  have idx: "file_at w' (Join [outdir, InfoFile]) = file_at w (Join [outdir, InfoFile])"
    using extractFile_index_untouched[of D inputPath outdir compress w] ef by simp
  have single: "Extract D inputPath outPath threads compress w0 = Returned (Some e) w'"
    if "outPath \<noteq> []" "Abs outPath w0 = Inr outdir" "MkdirAll outdir w0 = (None, w)"
      "Stat inputPath w = Inr False"
    using that ef by (simp add: Extract_def)
  have dir: "worker_step D i s =
      Some (s\<lparr>disk := w', workers := (workers s)[i := W_Ret (Some e)]\<rparr>)"
    if "i < length (workers s)" "workers s ! i = W_Run inputPath" "disk s = w"
      "cfg_outdir s = outdir" "cfg_compress s = compress"
    using that ef by (simp add: worker_step_def)
  have files: "\<forall>r\<in>set recs. file_at w' (Path r) \<noteq> None"
    using saved keep by simp
  show ?thesis
    using ef len files idx single dir by (intro conjI impI) simp_all
qed

theorem extractFile_failure_witness:
  "Open ''/in/shard'' (demo_out ''ab!c'') = Inr (File ''ab!c'') \<and>
   records demo_decoder False (File ''ab!c'') =
     map NextRecord [''a'', ''b''] @ NextError (LibError ''corrupt record'') # [NextRecord ''c''] \<and>
   fst (extract_loop demo_decoder ''/out'' (map NextRecord [''a'', ''b'']) [] (demo_out ''ab!c'')) =
     Inr [cat1, dog2] \<and>
   extractFile demo_decoder ''/in/shard'' ''/out'' False (demo_out ''ab!c'') =
     (Inl (LibError ''corrupt record''),
      snd (extract_loop demo_decoder ''/out'' (map NextRecord [''a'', ''b'']) [] (demo_out ''ab!c''))) \<and>
   list_all
     (\<lambda>r. file_at
        (snd (extract_loop demo_decoder ''/out'' (map NextRecord [''a'', ''b'']) [] (demo_out ''ab!c'')))
        (Path r) \<noteq> None)
     [cat1, dog2] \<and>
   Extract demo_decoder ''/in/shard'' ''/out'' 1 False (demo_world ''ab!c'') =
     Returned (Some (LibError ''corrupt record''))
       (snd (extract_loop demo_decoder ''/out'' (map NextRecord [''a'', ''b'']) [] (demo_out ''ab!c''))) \<and>
   worker_step demo_decoder 0 (demo_worker ''ab!c'') =
     Some ((demo_worker ''ab!c'')
       \<lparr>disk := snd (extract_loop demo_decoder ''/out'' (map NextRecord [''a'', ''b'']) []
                      (demo_out ''ab!c'')),
        workers := (workers (demo_worker ''ab!c''))[0 := W_Ret (Some (LibError ''corrupt record''))]\<rparr>)"
proof -
  let ?w = "demo_out ''ab!c''"
  let ?wn = "snd (extract_loop demo_decoder ''/out'' (map NextRecord [''a'', ''b'']) [] ?w)"
  let ?e = "LibError ''corrupt record''"
  have op: "Open ''/in/shard'' ?w = Inr (File ''ab!c'')" by code_simp
  have zl: "False \<longrightarrow> zlib_NewReader demo_decoder (File ''ab!c'') = None" by simp
  have rs: "records demo_decoder False (File ''ab!c'') =
      map NextRecord [''a'', ''b''] @ NextError ?e # [NextRecord ''c'']" by code_simp
  have f: "fst (extract_loop demo_decoder ''/out'' (map NextRecord [''a'', ''b'']) [] ?w) =
      Inr [cat1, dog2]" by code_simp
  then have ok: "extract_loop demo_decoder ''/out'' (map NextRecord [''a'', ''b'']) [] ?w =
      (Inr [cat1, dog2], ?wn)" by (simp add: prod_eq_iff)
  have bad: "(NextError ?e = NextError ?e \<and> ?e \<noteq> EOF \<and> ?wn = ?wn) \<or>
       (\<exists>ex. NextError ?e = NextRecord ex \<and> NewImageFromExample demo_decoder ex = Inl ?e \<and> ?wn = ?wn) \<or>
       (\<exists>ex img. NextError ?e = NextRecord ex \<and> NewImageFromExample demo_decoder ex = Inr img \<and>
          MkdirAll (Join [''/out'', Image.LabelText img]) ?wn = (Some ?e, ?wn)) \<or>
       (\<exists>ex img w1. NextError ?e = NextRecord ex \<and> NewImageFromExample demo_decoder ex = Inr img \<and>
          MkdirAll (Join [''/out'', Image.LabelText img]) ?wn = (None, w1) \<and>
          Save img (Join [''/out'', Image.LabelText img, Itoa (Image.ID img) @ ''.jpg'']) w1 =
            (Some ?e, ?wn))"
    by simp
  have a1: "''/out'' \<noteq> []" by simp
  have a2: "Abs ''/out'' (demo_world ''ab!c'') = Inr ''/out''" by code_simp
  have "fst (MkdirAll ''/out'' (demo_world ''ab!c'')) = None" by code_simp
  then have a3: "MkdirAll ''/out'' (demo_world ''ab!c'') = (None, ?w)"
    by (simp add: prod_eq_iff demo_out_def)
  have a4: "Stat ''/in/shard'' ?w = Inr False" by code_simp
  have b1: "0 < length (workers (demo_worker ''ab!c''))"
    "workers (demo_worker ''ab!c'') ! 0 = W_Run ''/in/shard''"
    "disk (demo_worker ''ab!c'') = ?w" "cfg_outdir (demo_worker ''ab!c'') = ''/out''"
    "cfg_compress (demo_worker ''ab!c'') = False"
    by (simp_all add: demo_worker_def spawn_def)
  note c = extractFile_failure[OF op zl rs ok bad, of "''/out''" "demo_world ''ab!c''" 1 0
      "demo_worker ''ab!c''"]
  show ?thesis using c op rs f a1 a2 a3 a4 b1 by (simp add: list_all_iff)
qed

text \<open>
  C4 as stated fails: a shard with two entities of label \<^verbatim>\<open>cat\<close> and id 1 gives two index
  records, and two rows of the index, with the path \<^verbatim>\<open>/out/cat/1.jpg\<close>.
\<close>

theorem shared_path_counterexample:
  "fst (extractFile demo_decoder ''/in/shard'' ''/out'' False (demo_out ''ad'')) = Inr [cat1, cat1d] \<and>
   Path cat1 = Path cat1d \<and> cat1 \<noteq> cat1d \<and>
   returned (Extract demo_decoder ''/in/shard'' ''/out'' 1 False (demo_world ''ad'')) = Some None \<and>
   file_at (outcome_world (Extract demo_decoder ''/in/shard'' ''/out'' 1 False (demo_world ''ad'')))
     ''/out/info.csv'' =
     Some (''image_path,id,label_id,label_text,organization'' @ [CHR 0x0A] @
           ''/out/cat/1.jpg,1,0,cat,acme'' @ [CHR 0x0A] @
           ''/out/cat/1.jpg,1,0,cat,other'' @ [CHR 0x0A])"
  by code_simp

text \<open>
  C4, amended.  Two index records of a run (of one shard or of two) that agree on label
  text and id have the same path; and when their label texts are real path elements,
  they have the same path only if they agree on label text and id.
\<close>

theorem record_paths:
  assumes "extractFile D p1 outdir c1 w1 = (Inr images1, w1')"
    and "extractFile D p2 outdir c2 w2 = (Inr images2, w2')"
    and "r1 \<in> set images1" and "r2 \<in> set images2"
  shows "(LabelText r1 = LabelText r2 \<and> ID r1 = ID r2 \<longrightarrow> Path r1 = Path r2) \<and>
         (plain (LabelText r1) \<and> plain (LabelText r2) \<and> Path r1 = Path r2 \<longrightarrow>
            LabelText r1 = LabelText r2 \<and> ID r1 = ID r2)"
proof -
  obtain a where a: "r1 = ir outdir a" using extractFile_record_of_image[OF assms(1,3)] by blast
  obtain b where b: "r2 = ir outdir b" using extractFile_record_of_image[OF assms(2,4)] by blast
  have "Path r1 = Path r2" if "LabelText r1 = LabelText r2" "ID r1 = ID r2"
    using that a b by (simp add: ir_def fname_def)
  moreover have "LabelText r1 = LabelText r2 \<and> ID r1 = ID r2"
    if "plain (LabelText r1)" "plain (LabelText r2)" "Path r1 = Path r2"
    using that a b fname_inj[of a b outdir] by (simp add: ir_def)
  ultimately show ?thesis by blast
qed

theorem record_paths_witness:
  "extractFile demo_decoder ''/in/shard'' ''/out'' False (demo_out ''abc'') =
     (Inr [cat1, dog2, cat3],
      snd (extractFile demo_decoder ''/in/shard'' ''/out'' False (demo_out ''abc''))) \<and>
   cat1 \<in> set [cat1, dog2, cat3] \<and> cat3 \<in> set [cat1, dog2, cat3] \<and>
   plain (LabelText cat1) \<and> plain (LabelText cat3) \<and>
   ID cat1 \<noteq> ID cat3 \<and> Path cat1 \<noteq> Path cat3"
proof -
  let ?w' = "snd (extractFile demo_decoder ''/in/shard'' ''/out'' False (demo_out ''abc''))"
  have "fst (extractFile demo_decoder ''/in/shard'' ''/out'' False (demo_out ''abc'')) =
      Inr [cat1, dog2, cat3]"
    by code_simp
  then have h: "extractFile demo_decoder ''/in/shard'' ''/out'' False (demo_out ''abc'') =
      (Inr [cat1, dog2, cat3], ?w')"
    by (simp add: prod_eq_iff)
  have m: "cat1 \<in> set [cat1, dog2, cat3]" "cat3 \<in> set [cat1, dog2, cat3]" by simp_all
  have p: "plain (LabelText cat1)" "plain (LabelText cat3)" by code_simp+
  have d: "ID cat1 \<noteq> ID cat3" by (simp add: cat1_def cat3_def)
  have "Path cat1 \<noteq> Path cat3" using record_paths[OF h h m] p d by blast
  then show ?thesis using h m p d by blast
qed

section \<open>Claims about Extract in single-file mode\<close>

text \<open>
  C7.  When the output directory could be made, the input is not a directory and
  \<open>extractFile\<close> returns an empty record list, \<open>Extract\<close> returns the error
  \<^verbatim>\<open>No images found\<close>, in the file system \<open>extractFile\<close> left.
\<close>

theorem Extract_no_images:
  assumes "outPath \<noteq> []"
    and "Abs outPath w = Inr outdir"
    and "MkdirAll outdir w = (None, w1)"
    and "Stat inputPath w1 = Inr False"
    and "extractFile D inputPath outdir compress w1 = (Inr [], w2)"
  shows "Extract D inputPath outPath threads compress w =
           Returned (Some (ErrorString ''No images found'')) w2"
  using assms by (simp add: Extract_def)

theorem Extract_no_images_witness:
  "''/out'' \<noteq> [] \<and>
   Abs ''/out'' (demo_world []) = Inr ''/out'' \<and>
   MkdirAll ''/out'' (demo_world []) = (None, demo_out []) \<and>
   Stat ''/in/shard'' (demo_out []) = Inr False \<and>
   extractFile demo_decoder ''/in/shard'' ''/out'' True (demo_out []) = (Inr [], demo_out []) \<and>
   Extract demo_decoder ''/in/shard'' ''/out'' 4 True (demo_world []) =
     Returned (Some (ErrorString ''No images found'')) (demo_out [])"
proof -
  have a1: "''/out'' \<noteq> []" by simp
  have a2: "Abs ''/out'' (demo_world []) = Inr ''/out''" by code_simp
  have "fst (MkdirAll ''/out'' (demo_world [])) = None" by code_simp
  then have a3: "MkdirAll ''/out'' (demo_world []) = (None, demo_out [])"
    by (simp add: prod_eq_iff demo_out_def)
  have a4: "Stat ''/in/shard'' (demo_out []) = Inr False" by code_simp
  have o: "Open ''/in/shard'' (demo_out []) = Inr (File [])" by code_simp
  have a5: "extractFile demo_decoder ''/in/shard'' ''/out'' True (demo_out []) = (Inr [], demo_out [])"
    using o by (simp add: extractFile_def demo_decoder_def)
  show ?thesis using Extract_no_images[OF a1 a2 a3 a4 a5, of 4] a1 a2 a3 a4 a5 by simp
qed

text \<open>
  C10.  In single-file mode, when \<open>extractFile\<close> returns an error or an empty record
  list, \<open>Extract\<close> returns an error in the very file system \<open>extractFile\<close> left (nothing is
  created or written after it), and the index file is what it was when \<open>Extract\<close>
  started: absent if it was absent, with its old content otherwise.
\<close>

theorem Extract_index_not_created:
  assumes "outPath \<noteq> []"
    and "Abs outPath w = Inr outdir"
    and "MkdirAll outdir w = (None, w1)"
    and "Stat inputPath w1 = Inr False"
    and "extractFile D inputPath outdir compress w1 = (r, w2)"
    and "(\<exists>e. r = Inl e) \<or> r = Inr []"
  shows "Extract D inputPath outPath threads compress w =
           Returned (Some (case r of Inl e \<Rightarrow> e | Inr images \<Rightarrow> ErrorString ''No images found'')) w2 \<and>
         file_at w2 (Join [outdir, InfoFile]) = file_at w (Join [outdir, InfoFile])"
proof -
  have "file_at w2 (Join [outdir, InfoFile]) = file_at w1 (Join [outdir, InfoFile])"
    using extractFile_index_untouched[of D inputPath outdir compress w1] assms(5) by simp
  moreover have "file_at w1 (Join [outdir, InfoFile]) = file_at w (Join [outdir, InfoFile])"
    using MkdirAll_file_at[OF assms(3)] .
  moreover have "Extract D inputPath outPath threads compress w =
      Returned (Some (case r of Inl e \<Rightarrow> e | Inr images \<Rightarrow> ErrorString ''No images found'')) w2"
    using assms by (auto simp: Extract_def)
  ultimately show ?thesis by simp
qed

theorem Extract_index_not_created_witness:
  "''/out'' \<noteq> [] \<and>
   Abs ''/out'' (demo_world ''ab!c'') = Inr ''/out'' \<and>
   MkdirAll ''/out'' (demo_world ''ab!c'') = (None, demo_out ''ab!c'') \<and>
   Stat ''/in/shard'' (demo_out ''ab!c'') = Inr False \<and>
   fst (extractFile demo_decoder ''/in/shard'' ''/out'' False (demo_out ''ab!c'')) =
     Inl (LibError ''corrupt record'') \<and>
   Extract demo_decoder ''/in/shard'' ''/out'' 1 False (demo_world ''ab!c'') =
     Returned (Some (LibError ''corrupt record''))
       (snd (extractFile demo_decoder ''/in/shard'' ''/out'' False (demo_out ''ab!c''))) \<and>
   file_at (snd (extractFile demo_decoder ''/in/shard'' ''/out'' False (demo_out ''ab!c'')))
     (Join [''/out'', InfoFile]) = None"
proof -
  let ?w2 = "snd (extractFile demo_decoder ''/in/shard'' ''/out'' False (demo_out ''ab!c''))"
  have a1: "''/out'' \<noteq> []" by simp
  have a2: "Abs ''/out'' (demo_world ''ab!c'') = Inr ''/out''" by code_simp
  have "fst (MkdirAll ''/out'' (demo_world ''ab!c'')) = None" by code_simp
  then have a3: "MkdirAll ''/out'' (demo_world ''ab!c'') = (None, demo_out ''ab!c'')"
    by (simp add: prod_eq_iff demo_out_def)
  have a4: "Stat ''/in/shard'' (demo_out ''ab!c'') = Inr False" by code_simp
  have f: "fst (extractFile demo_decoder ''/in/shard'' ''/out'' False (demo_out ''ab!c'')) =
      Inl (LibError ''corrupt record'')" by code_simp
  then have a5: "extractFile demo_decoder ''/in/shard'' ''/out'' False (demo_out ''ab!c'') =
      (Inl (LibError ''corrupt record''), ?w2)" by (simp add: prod_eq_iff)
  have a6: "(\<exists>e. Inl (LibError ''corrupt record'') = (Inl e :: error + ImageRecord list)) \<or>
      (Inl (LibError ''corrupt record'') :: error + ImageRecord list) = Inr []" by simp
  have b: "file_at (demo_world ''ab!c'') (Join [''/out'', InfoFile]) = None" by code_simp
  show ?thesis
    using Extract_index_not_created[OF a1 a2 a3 a4 a5 a6, of 1] a1 a2 a3 a4 f b by simp
qed

section \<open>Claims about the directory mode\<close>




text \<open>
  C6.  After the output directory has been made and the input path examined: for an
  input that is not a directory \<open>Extract\<close> is what its single-file branch makes of the one
  call \<open>extractFile inputPath\<close>; for a directory it is the pipeline, and in every state of
  every run the paths handed to the workers so far are a front part of the entries that
  \<^verbatim>\<open>ioutil.ReadDir\<close> reported for the input directory, sub-directories left out, each
  joined to the input path, in the reported order; when the enumerator is in its loop,
  what has been handed over and what is left make up that list; and when it has returned
  nil, the whole list has been handed over.  A path that is handed over is the path that
  the worker taking it, which was waiting to receive, holds afterwards, and the next step
  of a worker that holds a path is \<open>extractFile\<close> on that path, on the disk as it is then.
\<close>

theorem enumerator_paths:
  assumes "outPath \<noteq> []"
    and "Abs outPath w0 = Inr outdir"
    and "MkdirAll outdir w0 = (None, w)"
    and "Stat inputPath w = Inr isdir"
  shows "(\<not> isdir \<longrightarrow>
       Extract D inputPath outPath threads compress w0 =
         (case extractFile D inputPath outdir compress w of
            (Inl e, w2) \<Rightarrow> Returned (Some e) w2
          | (Inr images, w2) \<Rightarrow>
              if length images = 0 then Returned (Some (ErrorString ''No images found'')) w2
              else
                (case Create (Join [outdir, InfoFile]) w2 of
                   (Some e, w3) \<Rightarrow> Returned (Some e) w3
                 | (None, w3) \<Rightarrow>
                     (case writeHeader (NewWriter (Join [outdir, InfoFile])) w3 of
                        (Some e, b1, w4) \<Rightarrow> Returned (Some e) w4
                      | (None, b1, w4) \<Rightarrow>
                          (case writeLabels images b1 w4 of
                             (r, b2, w5) \<Rightarrow>
                               (case Flush b2 w5 of (b3, w6) \<Rightarrow> Returned (w_err b3) w6)))))) \<and>
     (isdir \<longrightarrow>
       Extract D inputPath outPath threads compress w0 =
         Spawned (spawn inputPath outdir (if threads = 0 then int (NumCPU w) else threads) compress w) \<and>
       (\<forall>n evs s. run D evs (spawn inputPath outdir n compress w) = Some s \<longrightarrow>
          (\<exists>rest. trace handed D evs (spawn inputPath outdir n compress w) @ rest =
             map (\<lambda>f. Join [inputPath, Name f]) (filter (\<lambda>f. \<not> IsDir f) (listing w inputPath))) \<and>
          (\<forall>fs. enumerator s = E_Loop fs \<longrightarrow>
             trace handed D evs (spawn inputPath outdir n compress w) @
               map (\<lambda>f. Join [inputPath, Name f]) (filter (\<lambda>f. \<not> IsDir f) fs) =
             map (\<lambda>f. Join [inputPath, Name f]) (filter (\<lambda>f. \<not> IsDir f) (listing w inputPath))) \<and>
          (enumerator s = E_Ret None \<or> enumerator s = E_Done \<and> g_err s = None \<longrightarrow>
             trace handed D evs (spawn inputPath outdir n compress w) =
             map (\<lambda>f. Join [inputPath, Name f]) (filter (\<lambda>f. \<not> IsDir f) (listing w inputPath))) \<and>
          (\<forall>i s'. step D (Handoff i) s = Some s' \<longrightarrow>
             (\<exists>p. handed (Handoff i) s = [p] \<and> i < length (workers s) \<and>
                  workers s ! i = W_Recv \<and> workers s' ! i = W_Run p)) \<and>
          (\<forall>i p s'. step D (WorkerStep i) s = Some s' \<and> workers s ! i = W_Run p \<longrightarrow>
             disk s' = snd (extractFile D p outdir compress (disk s)) \<and>
             workers s' ! i =
               (case fst (extractFile D p outdir compress (disk s)) of
                  Inl e \<Rightarrow> W_Ret (Some e) | Inr im \<Rightarrow> W_Send im))))"
proof -
  have single: "Extract D inputPath outPath threads compress w0 =
         (case extractFile D inputPath outdir compress w of
            (Inl e, w2) \<Rightarrow> Returned (Some e) w2
          | (Inr images, w2) \<Rightarrow>
              if length images = 0 then Returned (Some (ErrorString ''No images found'')) w2
              else
                (case Create (Join [outdir, InfoFile]) w2 of
                   (Some e, w3) \<Rightarrow> Returned (Some e) w3
                 | (None, w3) \<Rightarrow>
                     (case writeHeader (NewWriter (Join [outdir, InfoFile])) w3 of
                        (Some e, b1, w4) \<Rightarrow> Returned (Some e) w4
                      | (None, b1, w4) \<Rightarrow>
                          (case writeLabels images b1 w4 of
                             (r, b2, w5) \<Rightarrow>
                               (case Flush b2 w5 of (b3, w6) \<Rightarrow> Returned (w_err b3) w6)))))"
    if "\<not> isdir"
    using that assms by (simp add: Extract_def)
  have sp: "Extract D inputPath outPath threads compress w0 =
         Spawned (spawn inputPath outdir (if threads = 0 then int (NumCPU w) else threads) compress w)"
    if "isdir"
    using that assms by (simp add: Extract_def)
  have inv: "(\<exists>rest. trace handed D evs (spawn inputPath outdir n compress w) @ rest =
             shard_paths inputPath (listing w inputPath)) \<and>
          (\<forall>fs. enumerator s = E_Loop fs \<longrightarrow>
             trace handed D evs (spawn inputPath outdir n compress w) @ shard_paths inputPath fs =
             shard_paths inputPath (listing w inputPath)) \<and>
          (enumerator s = E_Ret None \<or> enumerator s = E_Done \<and> g_err s = None \<longrightarrow>
             trace handed D evs (spawn inputPath outdir n compress w) =
             shard_paths inputPath (listing w inputPath)) \<and>
          (\<forall>i s'. step D (Handoff i) s = Some s' \<longrightarrow>
             (\<exists>p. handed (Handoff i) s = [p] \<and> i < length (workers s) \<and>
                  workers s ! i = W_Recv \<and> workers s' ! i = W_Run p)) \<and>
          (\<forall>i p s'. step D (WorkerStep i) s = Some s' \<and> workers s ! i = W_Run p \<longrightarrow>
             disk s' = snd (extractFile D p outdir compress (disk s)) \<and>
             workers s' ! i =
               (case fst (extractFile D p outdir compress (disk s)) of
                  Inl e \<Rightarrow> W_Ret (Some e) | Inr im \<Rightarrow> W_Send im))"
    if r: "run D evs (spawn inputPath outdir n compress w) = Some s" for n evs s
  proof -
    have c: "cfg_inputPath s = inputPath" "cfg_outdir s = outdir" "cfg_compress s = compress"
      using run_config[OF r] by simp_all
    have e: "(\<exists>rest. trace handed D evs (spawn inputPath outdir n compress w) @ rest =
             shard_paths inputPath (listing w inputPath)) \<and>
          (\<forall>fs. enumerator s = E_Loop fs \<longrightarrow>
             trace handed D evs (spawn inputPath outdir n compress w) @ shard_paths inputPath fs =
             shard_paths inputPath (listing w inputPath)) \<and>
          (enumerator s = E_Ret None \<or> enumerator s = E_Done \<and> g_err s = None \<longrightarrow>
             trace handed D evs (spawn inputPath outdir n compress w) =
             shard_paths inputPath (listing w inputPath))"
      using run_enum_inv[OF r] c(1)
      by (cases "enumerator s") (auto simp: enum_inv_def split: option.splits)
    note e1 = e[THEN conjunct1] and e2 = e[THEN conjunct2, THEN conjunct1]
      and e3 = e[THEN conjunct2, THEN conjunct2]
    have h: "\<forall>i s'. step D (Handoff i) s = Some s' \<longrightarrow>
             (\<exists>p. handed (Handoff i) s = [p] \<and> i < length (workers s) \<and>
                  workers s ! i = W_Recv \<and> workers s' ! i = W_Run p)"
      by (intro allI impI) (rule handoff_link)
    have k: "\<forall>i p s'. step D (WorkerStep i) s = Some s' \<and> workers s ! i = W_Run p \<longrightarrow>
             disk s' = snd (extractFile D p outdir compress (disk s)) \<and>
             workers s' ! i =
               (case fst (extractFile D p outdir compress (disk s)) of
                  Inl e \<Rightarrow> W_Ret (Some e) | Inr im \<Rightarrow> W_Send im)"
    proof (intro allI impI, elim conjE)
      fix i p s'
      assume "step D (WorkerStep i) s = Some s'" and "workers s ! i = W_Run p"
      then show "disk s' = snd (extractFile D p outdir compress (disk s)) \<and>
             workers s' ! i =
               (case fst (extractFile D p outdir compress (disk s)) of
                  Inl e \<Rightarrow> W_Ret (Some e) | Inr im \<Rightarrow> W_Send im)"
        using worker_run_link[of D i s s' p] c by simp
    qed
    show ?thesis using e1 e2 e3 h k by (intro conjI)
  qed
  have A: "\<not> isdir \<longrightarrow>
       Extract D inputPath outPath threads compress w0 =
         (case extractFile D inputPath outdir compress w of
            (Inl e, w2) \<Rightarrow> Returned (Some e) w2
          | (Inr images, w2) \<Rightarrow>
              if length images = 0 then Returned (Some (ErrorString ''No images found'')) w2
              else
                (case Create (Join [outdir, InfoFile]) w2 of
                   (Some e, w3) \<Rightarrow> Returned (Some e) w3
                 | (None, w3) \<Rightarrow>
                     (case writeHeader (NewWriter (Join [outdir, InfoFile])) w3 of
                        (Some e, b1, w4) \<Rightarrow> Returned (Some e) w4
                      | (None, b1, w4) \<Rightarrow>
                          (case writeLabels images b1 w4 of
                             (r, b2, w5) \<Rightarrow>
                               (case Flush b2 w5 of (b3, w6) \<Rightarrow> Returned (w_err b3) w6)))))"
    by (rule impI) (rule single)
  show ?thesis
  proof (rule conjI[OF A], rule impI, rule conjI)
    assume "isdir"
    then show "Extract D inputPath outPath threads compress w0 =
         Spawned (spawn inputPath outdir (if threads = 0 then int (NumCPU w) else threads) compress w)"
      by (rule sp)
  next
    show "\<forall>n evs s. run D evs (spawn inputPath outdir n compress w) = Some s \<longrightarrow>
          (\<exists>rest. trace handed D evs (spawn inputPath outdir n compress w) @ rest =
             map (\<lambda>f. Join [inputPath, Name f]) (filter (\<lambda>f. \<not> IsDir f) (listing w inputPath))) \<and>
          (\<forall>fs. enumerator s = E_Loop fs \<longrightarrow>
             trace handed D evs (spawn inputPath outdir n compress w) @
               map (\<lambda>f. Join [inputPath, Name f]) (filter (\<lambda>f. \<not> IsDir f) fs) =
             map (\<lambda>f. Join [inputPath, Name f]) (filter (\<lambda>f. \<not> IsDir f) (listing w inputPath))) \<and>
          (enumerator s = E_Ret None \<or> enumerator s = E_Done \<and> g_err s = None \<longrightarrow>
             trace handed D evs (spawn inputPath outdir n compress w) =
             map (\<lambda>f. Join [inputPath, Name f]) (filter (\<lambda>f. \<not> IsDir f) (listing w inputPath))) \<and>
          (\<forall>i s'. step D (Handoff i) s = Some s' \<longrightarrow>
             (\<exists>p. handed (Handoff i) s = [p] \<and> i < length (workers s) \<and>
                  workers s ! i = W_Recv \<and> workers s' ! i = W_Run p)) \<and>
          (\<forall>i p s'. step D (WorkerStep i) s = Some s' \<and> workers s ! i = W_Run p \<longrightarrow>
             disk s' = snd (extractFile D p outdir compress (disk s)) \<and>
             workers s' ! i =
               (case fst (extractFile D p outdir compress (disk s)) of
                  Inl e \<Rightarrow> W_Ret (Some e) | Inr im \<Rightarrow> W_Send im))"
      using inv unfolding shard_paths_def by (intro allI impI)
  qed
qed

theorem enumerator_paths_witness:
  "Abs ''/out'' demo_tree = Inr ''/out'' \<and>
   MkdirAll ''/out'' demo_tree = (None, demo_tree) \<and>
   Stat ''/in'' demo_tree = Inr True \<and>
   trace handed demo_decoder [EnumStep, Handoff 0, EnumStep, Handoff 1, EnumStep]
     (spawn ''/in'' ''/out'' 2 False demo_tree) = [''/in/a'', ''/in/z''] \<and>
   map_option enumerator
     (run demo_decoder [EnumStep, Handoff 0, EnumStep, Handoff 1, EnumStep]
        (spawn ''/in'' ''/out'' 2 False demo_tree)) = Some (E_Ret None) \<and>
   map_option workers
     (run demo_decoder [EnumStep, Handoff 0, EnumStep, Handoff 1, EnumStep]
        (spawn ''/in'' ''/out'' 2 False demo_tree)) = Some [W_Run ''/in/a'', W_Run ''/in/z''] \<and>
   map (\<lambda>f. Join [''/in'', Name f]) (filter (\<lambda>f. \<not> IsDir f) (listing demo_tree ''/in'')) =
     [''/in/a'', ''/in/z'']"
proof -
  let ?evs = "[EnumStep, Handoff 0, EnumStep, Handoff 1, EnumStep]"
  let ?s0 = "spawn ''/in'' ''/out'' 2 False demo_tree"
  have a1: "''/out'' \<noteq> []" by simp
  have a2: "Abs ''/out'' demo_tree = Inr ''/out''" by code_simp
  have a3: "MkdirAll ''/out'' demo_tree = (None, demo_tree)"
    by (simp add: MkdirAll_def demo_tree_def)
  have a4: "Stat ''/in'' demo_tree = Inr True" by code_simp
  have e: "map_option enumerator (run demo_decoder ?evs ?s0) = Some (E_Ret None)" by code_simp
  have k: "map_option workers (run demo_decoder ?evs ?s0) = Some [W_Run ''/in/a'', W_Run ''/in/z'']"
    by code_simp
  have t: "trace handed demo_decoder ?evs ?s0 = [''/in/a'', ''/in/z'']" by code_simp
  obtain s where s: "run demo_decoder ?evs ?s0 = Some s" "enumerator s = E_Ret None"
    using e by auto
  have "trace handed demo_decoder ?evs ?s0 =
      map (\<lambda>f. Join [''/in'', Name f]) (filter (\<lambda>f. \<not> IsDir f) (listing demo_tree ''/in''))"
    using enumerator_paths[OF a1 a2 a3 a4, of demo_decoder 2 False] s by blast
  then show ?thesis using a2 a3 a4 e k t by simp
qed

text \<open>
  C8.  An input directory in which \<^verbatim>\<open>ioutil.ReadDir\<close> reports no entry, or
  sub-directories only, on a disk where the index file can be created and written:
  \<open>Extract\<close> starts the pipeline, and in every run of it no path is ever handed to a
  worker and no list of records ever reaches \<open>Extract\<close>; a run has at most
  \<open>3 * length files + 2 * n + 10\<close> steps, and as long as \<open>Extract\<close> has not returned some
  step is possible, so it does return; and when it returns, it returns nil and the index
  file holds the header line and nothing else.
\<close>

theorem empty_directory:
  assumes "outPath \<noteq> []"
    and "Abs outPath w0 = Inr outdir"
    and "MkdirAll outdir w0 = (None, w)"
    and "Stat inputPath w = Inr True"
    and rd: "ReadDir inputPath w = Inr files"
    and dirs: "list_all IsDir files"
    and cr: "Create (Join [outdir, InfoFile]) w = (None, w3)"
    and wf: "fst (write_file (Join [outdir, InfoFile]) (csv_line header) w3) = None"
    and n: "n = (if threads = 0 then int (NumCPU w) else threads)"
  shows "Extract D inputPath outPath threads compress w0 =
           Spawned (spawn inputPath outdir n compress w) \<and>
     (\<forall>evs s. run D evs (spawn inputPath outdir n compress w) = Some s \<longrightarrow>
        trace handed D evs (spawn inputPath outdir n compress w) = [] \<and>
        trace received D evs (spawn inputPath outdir n compress w) = [] \<and>
        length evs \<le> 3 * length files + 2 * nat n + 10 \<and>
        ((\<forall>r. mainpc s \<noteq> M_Ret r) \<longrightarrow> (\<exists>ev. step D ev s \<noteq> None)) \<and>
        (\<forall>r. mainpc s = M_Ret r \<longrightarrow>
           r = None \<and>
           file_at (disk s) (Join [outdir, InfoFile]) =
             Some (''image_path,id,label_id,label_text,organization'' @ [CHR 0x0A])))"
proof -
  let ?s0 = "spawn inputPath outdir n compress w"
  have ex: "Extract D inputPath outPath threads compress w0 = Spawned ?s0"
    using assms(1-4) n by (simp add: Extract_def)
  have l: "listing w inputPath = files" and frd: "fault w OpReadDir inputPath = None"
    using rd by (auto simp: ReadDir_def split: option.splits)
  have "fault w3 OpWrite (Join [outdir, InfoFile]) = None"
    using wf by (auto simp: write_file_def split: option.splits)
  moreover have "fault w3 = fault w" using Create_ok[OF cr] by simp
  ultimately have fw: "fault w OpWrite (Join [outdir, InfoFile]) = None" by simp
  have each: "trace handed D evs ?s0 = [] \<and> trace received D evs ?s0 = [] \<and>
        length evs \<le> 3 * length files + 2 * nat n + 10 \<and>
        ((\<forall>r. mainpc s \<noteq> M_Ret r) \<longrightarrow> (\<exists>ev. step D ev s \<noteq> None)) \<and>
        (\<forall>r. mainpc s = M_Ret r \<longrightarrow>
           r = None \<and>
           file_at (disk s) (Join [outdir, InfoFile]) =
             Some (''image_path,id,label_id,label_text,organization'' @ [CHR 0x0A]))"
    if r: "run D evs ?s0 = Some s" for evs s
  proof -
    have inv: "idle_group s" "idle_main w w3 s" "trace handed D evs ?s0 = []"
      "trace received D evs ?s0 = []"
      using run_idle_inv[OF r _ frd cr fw] dirs l by simp_all
    have b: "length evs \<le> 3 * length files + 2 * nat n + 10"
      using run_bound[OF r] l by (simp add: work_left_spawn)
    have cl: "closer s \<noteq> C_Wait \<longrightarrow> all_done s" using run_closer[OF r] by simp
    have p: "(\<forall>r. mainpc s \<noteq> M_Ret r) \<longrightarrow> (\<exists>ev. step D ev s \<noteq> None)"
      using idle_progress[OF inv(1) cl run_main_inv[OF r]] by blast
    have c: "cfg_outdir s = outdir" using run_config[OF r] by simp
    have f: "\<forall>r. mainpc s = M_Ret r \<longrightarrow>
           r = None \<and>
           file_at (disk s) (Join [outdir, InfoFile]) =
             Some (''image_path,id,label_id,label_text,organization'' @ [CHR 0x0A])"
      using inv(2) c by (auto simp: idle_main_def header_line)
    show ?thesis using inv(3,4) b p f by (intro conjI)
  qed
  show ?thesis using ex each by (intro conjI allI impI) blast+
qed

theorem empty_directory_witness:
  "Abs ''/out'' demo_empty = Inr ''/out'' \<and>
   MkdirAll ''/out'' demo_empty = (None, demo_empty) \<and>
   Stat ''/in'' demo_empty = Inr True \<and>
   ReadDir ''/in'' demo_empty = Inr [\<lparr>Name = ''m'', IsDir = True\<rparr>] \<and>
   fst (Create (Join [''/out'', InfoFile]) demo_empty) = None \<and>
   returned (Extract demo_decoder ''/in'' ''/out'' 1 False demo_empty) = None \<and>
   map_option mainpc
     (run demo_decoder demo_idle_schedule (spawn ''/in'' ''/out'' 1 False demo_empty)) =
     Some (M_Ret None) \<and>
   map_option (\<lambda>s. file_at (disk s) (Join [''/out'', InfoFile]))
     (run demo_decoder demo_idle_schedule (spawn ''/in'' ''/out'' 1 False demo_empty)) =
     Some (Some (''image_path,id,label_id,label_text,organization'' @ [CHR 0x0A]))"
proof -
  let ?s0 = "spawn ''/in'' ''/out'' 1 False demo_empty"
  let ?w3 = "snd (Create (Join [''/out'', InfoFile]) demo_empty)"
  have a1: "''/out'' \<noteq> []" by simp
  have a2: "Abs ''/out'' demo_empty = Inr ''/out''" by code_simp
  have a3: "MkdirAll ''/out'' demo_empty = (None, demo_empty)"
    by (simp add: MkdirAll_def demo_empty_def)
  have a4: "Stat ''/in'' demo_empty = Inr True" by code_simp
  have a5: "ReadDir ''/in'' demo_empty = Inr [\<lparr>Name = ''m'', IsDir = True\<rparr>]" by code_simp
  have a6: "list_all IsDir [\<lparr>Name = ''m'', IsDir = True\<rparr>]" by simp
  have c: "fst (Create (Join [''/out'', InfoFile]) demo_empty) = None" by code_simp
  then have a7: "Create (Join [''/out'', InfoFile]) demo_empty = (None, ?w3)"
    by (simp add: prod_eq_iff)
  have a8: "fst (write_file (Join [''/out'', InfoFile]) (csv_line header) ?w3) = None"
    by code_simp
  have a9: "(1::int) = (if (1::int) = 0 then int (NumCPU demo_empty) else 1)" by simp
  have m: "map_option mainpc (run demo_decoder demo_idle_schedule ?s0) = Some (M_Ret None)"
    by code_simp
  then obtain s where s: "run demo_decoder demo_idle_schedule ?s0 = Some s" "mainpc s = M_Ret None"
    by auto
  note t = empty_directory[OF a1 a2 a3 a4 a5 a6 a7 a8 a9, of demo_decoder False]
  have "file_at (disk s) (Join [''/out'', InfoFile]) =
      Some (''image_path,id,label_id,label_text,organization'' @ [CHR 0x0A])"
    using t s by blast
  moreover have "returned (Extract demo_decoder ''/in'' ''/out'' 1 False demo_empty) = None"
    using t by simp
  ultimately show ?thesis using a2 a3 a4 a5 c m s by simp
qed


section \<open>Claims about the index file\<close>







end
